theory Spec2Isabelle
  imports Complex_Main
begin

section \<open>Exceptions as values\<close>

text \<open>
  The notebooks are straight-line Python over the QuTiP quantum-object class. Every
  exception the library can raise on the paths the notebooks take is a value of
  \<open>error\<close>; a computation that may raise has type \<open>error + 'a\<close>. \<open>Unmodelled\<close> marks the
  one library branch that a dense matrix cannot express (adding a scalar to the stored
  entries of a sparse non-operator); no computation of the notebooks reaches it.
  \<open>DimensionError\<close> is the error the specification names for mismatched inputs of the
  integrator.
\<close>

datatype error = TypeError | ValueError | IndexError | PyException | Unmodelled | DimensionError

definition bindE :: "error + 'a \<Rightarrow> ('a \<Rightarrow> error + 'b) \<Rightarrow> error + 'b" where
  "bindE x f = (case x of Inl e \<Rightarrow> Inl e | Inr v \<Rightarrow> f v)"

fun foldE :: "('b \<Rightarrow> 'a \<Rightarrow> error + 'a) \<Rightarrow> 'b list \<Rightarrow> 'a \<Rightarrow> error + 'a" where
  "foldE f [] s = Inr s"
| "foldE f (x # xs) s = (case f x s of Inl e \<Rightarrow> Inl e | Inr s' \<Rightarrow> foldE f xs s')"

section \<open>Dense complex matrices\<close>

text \<open>
  QuTiP keeps the entries of a quantum object in a sparse matrix of complex doubles. The
  model keeps them densely, row by row, as complex numbers. A scalar of the Doppler-cooling
  notebook enters an operator as the double the notebook computes (see the section on
  double-precision scalars). Arithmetic between matrix entries is exact here, where the
  library rounds every sum and product of entries to a double; the library's removal of
  entries below \<open>1e-12\<close> (\<open>tidyup\<close>) has no counterpart. A statement that depends on
  the value of an entry says which of the two arithmetics it speaks of.
\<close>

type_synonym cmatrix = "complex list list"

text \<open>
  \<open>mat m n f\<close> is the matrix of \<open>m\<close> rows and \<open>n\<close> columns with the entry \<open>f i j\<close> in row
  \<open>i\<close> and column \<open>j\<close>, counted from zero. Every operation below reads the entries of its
  arguments and builds its result with \<open>mat\<close>.
\<close>

definition mat :: "nat \<Rightarrow> nat \<Rightarrow> (nat \<Rightarrow> nat \<Rightarrow> complex) \<Rightarrow> cmatrix" where
  "mat m n f = map (\<lambda>i. map (\<lambda>j. f i j) [0..<n]) [0..<m]"

definition nrows :: "cmatrix \<Rightarrow> nat" where
  "nrows A = length A"

definition ncols :: "cmatrix \<Rightarrow> nat" where
  "ncols A = (case A of [] \<Rightarrow> 0 | r # _ \<Rightarrow> length r)"

definition msize :: "cmatrix \<Rightarrow> nat" where
  "msize A = nrows A * ncols A"

definition meye :: "nat \<Rightarrow> cmatrix" where
  "meye n = mat n n (\<lambda>i j. if i = j then 1 else 0)"

definition mdiag :: "nat \<Rightarrow> (nat \<Rightarrow> complex) \<Rightarrow> cmatrix" where
  "mdiag n d = mat n n (\<lambda>i j. if i = j then d i else 0)"

definition madd :: "cmatrix \<Rightarrow> cmatrix \<Rightarrow> cmatrix" where
  "madd A B = mat (nrows A) (ncols A) (\<lambda>i j. A ! i ! j + B ! i ! j)"

definition mscale :: "complex \<Rightarrow> cmatrix \<Rightarrow> cmatrix" where
  "mscale c A = mat (nrows A) (ncols A) (\<lambda>i j. c * A ! i ! j)"

definition mdiv :: "cmatrix \<Rightarrow> complex \<Rightarrow> cmatrix" where
  "mdiv A c = mat (nrows A) (ncols A) (\<lambda>i j. A ! i ! j / c)"

definition mmul :: "cmatrix \<Rightarrow> cmatrix \<Rightarrow> cmatrix" where
  "mmul A B = mat (nrows A) (ncols B) (\<lambda>i j. \<Sum>l\<leftarrow>[0..<ncols A]. A ! i ! l * B ! l ! j)"

definition mdag :: "cmatrix \<Rightarrow> cmatrix" where
  "mdag A = mat (ncols A) (nrows A) (\<lambda>i j. cnj (A ! j ! i))"

definition mtranspose :: "cmatrix \<Rightarrow> cmatrix" where
  "mtranspose A = mat (ncols A) (nrows A) (\<lambda>i j. A ! j ! i)"

definition mconj :: "cmatrix \<Rightarrow> cmatrix" where
  "mconj A = mat (nrows A) (ncols A) (\<lambda>i j. cnj (A ! i ! j))"

text \<open>
  The Kronecker product: the row index \<open>i\<close> of the product stands for the pair
  \<open>(i div nrows B, i mod nrows B)\<close>, the first factor varying slowest.
\<close>

definition kron :: "cmatrix \<Rightarrow> cmatrix \<Rightarrow> cmatrix" where
  "kron A B = mat (nrows A * nrows B) (ncols A * ncols B)
     (\<lambda>i j. A ! (i div nrows B) ! (j div ncols B) * B ! (i mod nrows B) ! (j mod ncols B))"

primrec mpow :: "cmatrix \<Rightarrow> nat \<Rightarrow> cmatrix" where
  "mpow A 0 = meye (nrows A)"
| "mpow A (Suc n) = mmul (mpow A n) A"

section \<open>Double-precision scalars\<close>

text \<open>
  A Python float is an IEEE 754 binary64 number. \<open>fl x\<close> is the double nearest to the real
  \<open>x\<close>: 53 significant bits, a tie going to the even mantissa, gradual underflow below
  \<open>2^(-1022)\<close>. Overflow to infinity is not modelled; the scalars of the notebooks lie
  between \<open>1e-40\<close> and \<open>1e15\<close>. A float literal is the double nearest to its decimal,
  and \<open>+\<close>, \<open>*\<close>, \<open>/\<close> and \<open>np.sqrt\<close> return the double nearest to the exact result.
  \<open>x ** n\<close> calls the C library's \<open>pow\<close>, taken here as correctly rounded. A float
  division by zero raises in Python; every divisor of the notebooks is a nonzero
  constant. \<open>np.pi\<close> is the double \<open>0x1.921fb54442d18p+1\<close>.
\<close>

definition round_even :: "real \<Rightarrow> int" where
  "round_even y =
     (let f = \<lfloor>y\<rfloor>; d = y - of_int f
      in if d < 1 / 2 then f else if 1 / 2 < d then f + 1 else if even f then f else f + 1)"

definition fl :: "real \<Rightarrow> real" where
  "fl x =
     (if x = 0 then 0
      else let e = max \<lfloor>log 2 \<bar>x\<bar>\<rfloor> (- 1022) - 52
           in of_int (round_even (x / 2 powr of_int e)) * 2 powr of_int e)"

definition fadd :: "real \<Rightarrow> real \<Rightarrow> real" where
  "fadd x y = fl (x + y)"

definition fmul :: "real \<Rightarrow> real \<Rightarrow> real" where
  "fmul x y = fl (x * y)"

definition fdiv :: "real \<Rightarrow> real \<Rightarrow> real" where
  "fdiv x y = fl (x / y)"

definition fpow :: "real \<Rightarrow> nat \<Rightarrow> real" where
  "fpow x n = fl (x ^ n)"

definition np_sqrt :: "real \<Rightarrow> real" where
  "np_sqrt x = fl (sqrt x)"

definition np_pi :: real where
  "np_pi = 7074237752028440 / 2 ^ 51"

section \<open>The quantum object of QuTiP\<close>

text \<open>
  A \<open>Qobj\<close> carries its matrix \<open>data\<close> and the tensor structure \<open>dims\<close>, the pair of the
  row and column dimension lists (\<open>[[2, 101], [2, 101]]\<close> in Python). \<open>shape\<close> is derived
  from the matrix, as in the library.
\<close>

record qobj =
  dims :: "nat list \<times> nat list"
  data :: cmatrix

definition shape :: "qobj \<Rightarrow> nat \<times> nat" where
  "shape q = (nrows (data q), ncols (data q))"

text \<open>
  The type the library derives from \<open>dims\<close>: a side whose dimensions multiply to one is
  scalar-like; both sides scalar-like is an operator, the rows a bra, the columns a ket,
  and equal sides are an operator.
\<close>

datatype qtype = Ket | Bra | Oper | Other

definition qtype_of :: "qobj \<Rightarrow> qtype" where
  "qtype_of q =
     (if prod_list (fst (dims q)) = 1
        then (if prod_list (snd (dims q)) = 1 then Oper else Bra)
      else if prod_list (snd (dims q)) = 1 then Ket
      else if fst (dims q) = snd (dims q) then Oper
      else Other)"

subsection \<open>Constructors\<close>

text \<open>\<open>Qobj([[0, 1], [0, 0]])\<close>: a quantum object from a nested list; \<open>dims\<close> is the shape.\<close>

definition Qobj :: "cmatrix \<Rightarrow> qobj" where
  "Qobj rows = \<lparr>dims = ([nrows rows], [ncols rows]), data = rows\<rparr>"

text \<open>\<open>qeye(N)\<close>, the identity; \<open>sigmax()\<close> and \<open>sigmaz()\<close>, the Pauli matrices.\<close>

definition qeye :: "nat \<Rightarrow> qobj" where
  "qeye N = \<lparr>dims = ([N], [N]), data = meye N\<rparr>"

definition sigmax :: qobj where
  "sigmax = \<lparr>dims = ([2], [2]), data = [[0, 1], [1, 0]]\<rparr>"

definition sigmaz :: qobj where
  "sigmaz = \<lparr>dims = ([2], [2]), data = [[1, 0], [0, - 1]]\<rparr>"

text \<open>
  \<open>basis(N, n)\<close>: the column vector with a one in row \<open>n\<close>; the library raises
  \<open>ValueError\<close> unless \<open>n \<le> N - 1\<close>.
\<close>

definition basis :: "nat \<Rightarrow> nat \<Rightarrow> error + qobj" where
  "basis N n =
     (if n < N then Inr \<lparr>dims = ([N], [1]), data = mat N 1 (\<lambda>i j. if i = n then 1 else 0)\<rparr>
      else Inl ValueError)"

text \<open>
  \<open>charge(Nmax)\<close>: the diagonal operator over the charge states \<open>-Nmax, \<dots>, Nmax\<close>, of
  dimension \<open>2 * Nmax + 1\<close>.
\<close>

definition charge :: "nat \<Rightarrow> qobj" where
  "charge Nmax = \<lparr>dims = ([2 * Nmax + 1], [2 * Nmax + 1]),
     data = mdiag (2 * Nmax + 1) (\<lambda>i. of_int (int i - int Nmax))\<rparr>"

text \<open>
  \<open>tunneling(N, m)\<close>: ones on the diagonals at offsets \<open>m\<close> and \<open>-m\<close>, each diagonal
  holding \<open>N - m\<close> ones. For \<open>m > N\<close> the diagonals cannot be built, and for \<open>m = 0\<close>
  the two offsets coincide, which the sparse constructor rejects (\<open>ValueError\<close>).
\<close>

definition tunneling :: "nat \<Rightarrow> nat \<Rightarrow> error + qobj" where
  "tunneling N m =
     (if N < m \<or> m = 0 then Inl ValueError
      else Inr \<lparr>dims = ([N], [N]),
        data = mat N N (\<lambda>i j. (if j = i + m then 1 else 0) + (if i = j + m then 1 else 0))\<rparr>)"

text \<open>
  \<open>qdiags(np.ones(L), offset)\<close> with one diagonal of \<open>L\<close> ones: the square matrix of
  dimension \<open>L + |offset|\<close> with that diagonal at the given offset (positive offsets lie
  above the main diagonal).
\<close>

definition qdiags_ones :: "nat \<Rightarrow> int \<Rightarrow> qobj" where
  "qdiags_ones L offset =
     (let N = L + nat \<bar>offset\<bar> in
      \<lparr>dims = ([N], [N]), data = mat N N (\<lambda>i j. if int j = int i + offset then 1 else 0)\<rparr>)"

subsection \<open>Arithmetic\<close>

text \<open>A Python number times a quantum object, a quantum object over a number, negation.\<close>

definition smul :: "real \<Rightarrow> qobj \<Rightarrow> qobj" where
  "smul c q = q\<lparr>data := mscale (of_real c) (data q)\<rparr>"

definition sdiv :: "qobj \<Rightarrow> real \<Rightarrow> qobj" where
  "sdiv q c = q\<lparr>data := mdiv (data q) (of_real c)\<rparr>"

definition qneg :: "qobj \<Rightarrow> qobj" where
  "qneg q = q\<lparr>data := mscale (- 1) (data q)\<rparr>"

text \<open>
  Addition with a one-by-one operand is scalar addition: zero returns the other operand
  unchanged, an operator receives the scalar times the identity.
\<close>

definition scalar_add :: "qobj \<Rightarrow> complex \<Rightarrow> error + qobj" where
  "scalar_add q c =
     (if c = 0 then Inr q
      else if qtype_of q = Oper
        then Inr (q\<lparr>data := madd (data q) (mscale c (meye (nrows (data q))))\<rparr>)
      else Inl Unmodelled)"

text \<open>
  \<open>A + B\<close>: after the scalar cases, different \<open>dims\<close> raise \<open>TypeError\<close>, different
  shapes raise \<open>TypeError\<close>, and otherwise the matrices add.
\<close>

definition qadd :: "qobj \<Rightarrow> qobj \<Rightarrow> error + qobj" where
  "qadd A B =
     (if msize (data B) = 1 \<and> msize (data A) \<noteq> 1 then scalar_add A (data B ! 0 ! 0)
      else if msize (data A) = 1 \<and> msize (data B) \<noteq> 1 then scalar_add B (data A ! 0 ! 0)
      else if dims A \<noteq> dims B then Inl TypeError
      else if shape A \<noteq> shape B then Inl TypeError
      else Inr \<lparr>dims = dims A, data = madd (data A) (data B)\<rparr>)"

text \<open>\<open>A - B\<close> is \<open>A + (-B)\<close>; \<open>c - A\<close> with a number \<open>c\<close> is \<open>(-A) + Qobj(c)\<close>.\<close>

definition qsub :: "qobj \<Rightarrow> qobj \<Rightarrow> error + qobj" where
  "qsub A B = qadd A (qneg B)"

definition rsub_scalar :: "real \<Rightarrow> qobj \<Rightarrow> error + qobj" where
  "rsub_scalar c A = qadd (qneg A) (Qobj [[of_real c]])"

text \<open>
  After a product the library drops every position where the row and the column
  dimension lists both hold a one, keeping \<open>[1]\<close> when nothing is left.
\<close>

fun unit_mask :: "nat list \<Rightarrow> nat list \<Rightarrow> bool list" where
  "unit_mask [] [] = []"
| "unit_mask (l # ls) [] = False # unit_mask ls []"
| "unit_mask [] (r # rs) = False # unit_mask [] rs"
| "unit_mask (l # ls) (r # rs) = (l = 1 \<and> r = 1) # unit_mask ls rs"

definition keep_unmasked :: "nat list \<Rightarrow> bool list \<Rightarrow> nat list" where
  "keep_unmasked ds ms =
     (let kept = map fst (filter (\<lambda>(d, m). \<not> m) (zip ds ms))
      in if kept = [] then [1] else kept)"

definition tidy_dims :: "nat list \<times> nat list \<Rightarrow> nat list \<times> nat list" where
  "tidy_dims d =
     (let ms = unit_mask (fst d) (snd d)
      in (keep_unmasked (fst d) ms, keep_unmasked (snd d) ms))"

text \<open>
  \<open>A * B\<close>: the matrix product when the column dimensions of \<open>A\<close> are the row dimensions
  of \<open>B\<close>; a one-by-one operand acts as a scalar; anything else raises \<open>TypeError\<close>.
\<close>

definition qmul :: "qobj \<Rightarrow> qobj \<Rightarrow> error + qobj" where
  "qmul A B =
     (if snd (dims A) = fst (dims B)
        then Inr \<lparr>dims = tidy_dims (fst (dims A), snd (dims B)),
                  data = mmul (data A) (data B)\<rparr>
      else if msize (data A) = 1 then Inr (B\<lparr>data := mscale (data A ! 0 ! 0) (data B)\<rparr>)
      else if msize (data B) = 1 then Inr (A\<lparr>data := mscale (data B ! 0 ! 0) (data A)\<rparr>)
      else Inl TypeError)"

text \<open>\<open>A ** n\<close>: the matrix power, for operators only.\<close>

definition qpow :: "qobj \<Rightarrow> nat \<Rightarrow> error + qobj" where
  "qpow A n =
     (if qtype_of A \<noteq> Oper then Inl PyException
      else Inr \<lparr>dims = dims A, data = mpow (data A) n\<rparr>)"

text \<open>\<open>A.dag()\<close>, the adjoint, and \<open>psi.proj()\<close>, the projector of a ket or a bra.\<close>

definition dag :: "qobj \<Rightarrow> qobj" where
  "dag A = \<lparr>dims = (snd (dims A), fst (dims A)), data = mdag (data A)\<rparr>"

definition proj :: "qobj \<Rightarrow> error + qobj" where
  "proj q =
     (if qtype_of q = Ket
        then Inr \<lparr>dims = (fst (dims q), fst (dims q)), data = mmul (data q) (mdag (data q))\<rparr>
      else if qtype_of q = Bra
        then Inr \<lparr>dims = (snd (dims q), snd (dims q)), data = mmul (mdag (data q)) (data q)\<rparr>
      else Inl TypeError)"

text \<open>
  \<open>tensor(q1, q2, \<dots>)\<close>, also called with one list: the Kronecker product from the left,
  the dimension lists concatenated; no argument raises \<open>TypeError\<close>.
\<close>

definition tensor2 :: "qobj \<Rightarrow> qobj \<Rightarrow> qobj" where
  "tensor2 A B = \<lparr>dims = (fst (dims A) @ fst (dims B), snd (dims A) @ snd (dims B)),
                  data = kron (data A) (data B)\<rparr>"

definition tensor :: "qobj list \<Rightarrow> error + qobj" where
  "tensor qs = (case qs of [] \<Rightarrow> Inl TypeError | q # rest \<Rightarrow> Inr (foldl tensor2 q rest))"

section \<open>Python list access\<close>

definition getitem :: "'a list \<Rightarrow> nat \<Rightarrow> error + 'a" where
  "getitem xs i = (if i < length xs then Inr (xs ! i) else Inl IndexError)"

definition setitem :: "'a list \<Rightarrow> nat \<Rightarrow> 'a \<Rightarrow> error + 'a list" where
  "setitem xs i v = (if i < length xs then Inr (xs[i := v]) else Inl IndexError)"

section \<open>The pitfalls notebook\<close>

text \<open>
  The notebook builds the ground state of two two-level atoms twice: as \<open>basis(4, 0)\<close> and
  as \<open>tensor(psi_list)\<close> with \<open>psi_list\<close> filled by
  \<open>for n in range(2): psi_list.append(basis(2, 0))\<close>.
\<close>

definition pitfall_flat :: "error + qobj" where
  "pitfall_flat = basis 4 0"

definition pitfall_psi_list :: "error + qobj list" where
  "pitfall_psi_list =
     foldE (\<lambda>n psi_list. bindE (basis 2 0) (\<lambda>b. Inr (psi_list @ [b]))) [0..<2] []"

definition pitfall_tensor :: "error + qobj" where
  "pitfall_tensor = bindE pitfall_psi_list tensor"

section \<open>The Doppler-cooling notebook\<close>

text \<open>
  The cells of the notebook in their order. The second cell computes its scalars in
  doubles:
  \<open>mRb = 3.8175409E-26\<close>, \<open>hbar = 1.05457E-34\<close>, \<open>hbarOvermRb = hbar/mRb\<close>,
  \<open>k = 2*np.pi/589E-9\<close>, \<open>Gamma = 200*hbar*k**2/mRb\<close>, \<open>Omega = Gamma/2\<close>,
  \<open>delta = -Gamma/2\<close>.
\<close>

definition nmax :: nat where
  "nmax = 50"

definition mRb :: real where
  "mRb = fl (38175409 / 10 ^ 33)"

definition hbar :: real where
  "hbar = fl (105457 / 10 ^ 39)"

definition hbarOvermRb :: real where
  "hbarOvermRb = fdiv hbar mRb"

definition k :: real where
  "k = fdiv (fmul 2 np_pi) (fl (589 / 10 ^ 9))"

definition Gamma :: real where
  "Gamma = fdiv (fmul (fmul 200 hbar) (fpow k 2)) mRb"

definition Omega :: real where
  "Omega = fdiv Gamma 2"

definition delta :: real where
  "delta = fdiv (- Gamma) 2"

text \<open>\<open>psi0 = tensor(basis(2,0), basis(2*nmax + 1, nmax))\<close>\<close>

definition psi0 :: "error + qobj" where
  "psi0 = bindE (basis 2 0) (\<lambda>g. bindE (basis (2 * nmax + 1) nmax) (\<lambda>p. tensor [g, p]))"

text \<open>\<open>coupling = tensor(sigmax(), tunneling(2*nmax + 1, 1))\<close>\<close>

definition coupling :: "error + qobj" where
  "coupling = bindE (tunneling (2 * nmax + 1) 1) (\<lambda>t. tensor [sigmax, t])"

text \<open>\<open>momentum = tensor(qeye(2), charge(nmax))\<close>\<close>

definition momentum :: "error + qobj" where
  "momentum = tensor [qeye 2, charge nmax]"

text \<open>\<open>Pe = tensor(basis(2, 1).proj(), qeye(2*nmax + 1))\<close>\<close>

definition Pe :: "error + qobj" where
  "Pe = bindE (basis 2 1) (\<lambda>e. bindE (proj e) (\<lambda>P. tensor [P, qeye (2 * nmax + 1)]))"

text \<open>
  \<open>decay = Qobj([[0, 1], [0, 0]])\<close> and the three jump operators
  \<open>C0 = np.sqrt(3/5 * Gamma) * tensor(decay, qeye(2*nmax + 1))\<close>,
  \<open>Cmk = np.sqrt(1/5 * Gamma) * tensor(decay, qdiags(np.ones(2*nmax), 1))\<close>,
  \<open>Cpk = np.sqrt(1/5 * Gamma) * tensor(decay, qdiags(np.ones(2*nmax), -1))\<close>.
\<close>

definition decay :: qobj where
  "decay = Qobj [[0, 1], [0, 0]]"

text \<open>The two coefficients, \<open>np.sqrt(3/5 * Gamma)\<close> and \<open>np.sqrt(1/5 * Gamma)\<close>, as doubles.\<close>

definition c0_coef :: real where
  "c0_coef = np_sqrt (fmul (fdiv 3 5) Gamma)"

definition ck_coef :: real where
  "ck_coef = np_sqrt (fmul (fdiv 1 5) Gamma)"

definition C0 :: "error + qobj" where
  "C0 = bindE (tensor [decay, qeye (2 * nmax + 1)]) (\<lambda>t. Inr (smul c0_coef t))"

definition Cmk :: "error + qobj" where
  "Cmk = bindE (tensor [decay, qdiags_ones (2 * nmax) 1]) (\<lambda>t. Inr (smul ck_coef t))"

definition Cpk :: "error + qobj" where
  "Cpk = bindE (tensor [decay, qdiags_ones (2 * nmax) (- 1)]) (\<lambda>t. Inr (smul ck_coef t))"

definition Cs :: "error + qobj list" where
  "Cs = bindE C0 (\<lambda>c0. bindE Cmk (\<lambda>cm. bindE Cpk (\<lambda>cp. Inr [c0, cm, cp])))"

text \<open>
  \<open>H = hbarOvermRb*(k*momentum)**2/2 + Omega/2 * coupling - delta * Pe\<close>; the first
  summand, the kinetic term, is named for the statements about it.
\<close>

definition kinetic :: "error + qobj" where
  "kinetic = bindE momentum (\<lambda>mom.
             bindE (qpow (smul k mom) 2) (\<lambda>p2.
             Inr (sdiv (smul hbarOvermRb p2) 2)))"

definition H :: "error + qobj" where
  "H = bindE kinetic (\<lambda>kin.
       bindE coupling (\<lambda>cpl.
       bindE (qadd kin (smul (fdiv Omega 2) cpl)) (\<lambda>s.
       bindE Pe (\<lambda>pe.
       qsub s (smul delta pe)))))"

text \<open>The observable of the \<open>mcsolve\<close> call, \<open>momentum**2\<close>.\<close>

definition momentum_sq :: "error + qobj" where
  "momentum_sq = bindE momentum (\<lambda>mom. qpow mom 2)"

text \<open>
  The scattering operator \<open>C\<^sup>\<dagger>C\<close> of a jump operator and the sum over the three channels,
  in the exact arithmetic of the matrices; and \<open>Gamma\<close> times the projector on the excited
  state, the operator the sum is compared with.
\<close>

definition CdagC :: "qobj \<Rightarrow> error + qobj" where
  "CdagC C = qmul (dag C) C"

definition CdagC_sum :: "error + qobj" where
  "CdagC_sum = bindE C0 (\<lambda>c0. bindE Cmk (\<lambda>cm. bindE Cpk (\<lambda>cp.
       bindE (CdagC c0) (\<lambda>s0. bindE (CdagC cm) (\<lambda>s1. bindE (qadd s0 s1) (\<lambda>s01.
       bindE (CdagC cp) (\<lambda>s2. qadd s01 s2)))))))"

definition Gamma_Pe :: "error + qobj" where
  "Gamma_Pe = bindE Pe (\<lambda>P. Inr (smul Gamma P))"

text \<open>Reading one entry of a quantum object; an index out of range raises.\<close>

definition entry :: "error + qobj \<Rightarrow> nat \<Rightarrow> nat \<Rightarrow> error + complex" where
  "entry q i j = bindE q (\<lambda>A. bindE (getitem (data A) i) (\<lambda>row. getitem row j))"

text \<open>
  Modelled from the spec: the dimension validation of the integrator, which is a call
  into the library and has no code in the repository. Section 7 of the specification:
  mismatched matrix dimensions between \<open>H\<close>, the jump operators, \<open>\<psi>0\<close> and the
  observables fail with a \<open>DimensionError\<close> before any trajectory work begins.
\<close>

definition check_dims :: "qobj \<Rightarrow> qobj \<Rightarrow> qobj list \<Rightarrow> qobj list \<Rightarrow> error + unit" where
  "check_dims Ham psi e_ops c_ops =
     (if fst (dims Ham) = snd (dims Ham) \<and> fst (shape Ham) = snd (shape Ham)
         \<and> fst (dims psi) = snd (dims Ham) \<and> fst (shape psi) = snd (shape Ham)
         \<and> list_all (\<lambda>C. dims C = dims Ham \<and> shape C = shape Ham) c_ops
         \<and> list_all (\<lambda>E. dims E = dims Ham \<and> shape E = shape Ham) e_ops
      then Inr () else Inl DimensionError)"

section \<open>The Rydberg-array notebook\<close>

text \<open>
  \<open>Natoms = 9\<close>, \<open>C6 = -2*np.pi * 231529\<close>, \<open>a = 5.74\<close>, \<open>si = qeye(2)\<close>. The two floats
  are read as the reals they denote: the statements about this notebook use the sign of
  the interaction coefficient and the structure of the loop, not the value of an entry.
\<close>

definition Natoms :: nat where
  "Natoms = 9"

definition C6 :: real where
  "C6 = - 2 * pi * 231529"

definition a :: real where
  "a = 574 / 100"

definition si :: qobj where
  "si = qeye 2"

text \<open>
  The cell that builds the single-site operators. For every site \<open>i\<close> the list
  \<open>dumoperator\<close> is filled with \<open>Natoms\<close> identities, entry \<open>i\<close> is set to \<open>sigmax()\<close> and
  the tensor product is appended to \<open>fullsigmax\<close>; entry \<open>i\<close> is then set to
  \<open>(1-sigmaz())/2\<close> and the tensor product is appended to \<open>fullnumberop\<close>.
\<close>

definition dumoperator_init :: "qobj list" where
  "dumoperator_init = foldl (\<lambda>d j. d @ [si]) [] [0..<Natoms]"

definition number_op :: "error + qobj" where
  "number_op = bindE (rsub_scalar 1 sigmaz) (\<lambda>q. Inr (sdiv q 2))"

definition build_ops_step :: "nat \<Rightarrow> qobj list \<times> qobj list \<Rightarrow> error + qobj list \<times> qobj list" where
  "build_ops_step i acc =
     bindE (setitem dumoperator_init i sigmax) (\<lambda>d1.
     bindE (tensor d1) (\<lambda>sx.
     bindE number_op (\<lambda>nop.
     bindE (setitem d1 i nop) (\<lambda>d2.
     bindE (tensor d2) (\<lambda>no.
     Inr (fst acc @ [sx], snd acc @ [no]))))))"

definition build_ops :: "error + qobj list \<times> qobj list" where
  "build_ops = foldE build_ops_step [0..<Natoms] ([], [])"

definition fullsigmax :: "error + qobj list" where
  "fullsigmax = bindE build_ops (\<lambda>p. Inr (fst p))"

definition fullnumberop :: "error + qobj list" where
  "fullnumberop = bindE build_ops (\<lambda>p. Inr (snd p))"

text \<open>
  The cell that builds the Hamiltonian. Its first line gives \<open>H\<close> the drive and detuning
  terms; that value is the argument \<open>H0\<close> here. The double loop then runs
  \<open>for j in range(Natoms): for i in range(j):\<close> with the body
  \<open>if abs(i - j) == 1: H += -C6/(a * np.abs(i - j))**6 * fullnumberop[i]*fullnumberop[j]\<close>.
\<close>

definition interaction_step :: "qobj list \<Rightarrow> nat \<Rightarrow> nat \<Rightarrow> qobj \<Rightarrow> error + qobj" where
  "interaction_step ns j i Hc =
     (if \<bar>int i - int j\<bar> = 1
      then bindE (getitem ns i) (\<lambda>ni.
           bindE (getitem ns j) (\<lambda>nj.
           bindE (qmul (smul (- C6 / (a * of_int \<bar>int i - int j\<bar>) ^ 6) ni) nj) (\<lambda>t.
           qadd Hc t)))
      else Inr Hc)"

definition add_interactions :: "qobj list \<Rightarrow> qobj \<Rightarrow> error + qobj" where
  "add_interactions ns H0 =
     foldE (\<lambda>j Hc. foldE (\<lambda>i Hc'. interaction_step ns j i Hc') [0..<j] Hc) [0..<Natoms] H0"

text \<open>
  An operator on \<open>n\<close> two-level sites: \<open>n\<close> tensor factors of dimension two and a
  square matrix of dimension \<open>2\<^sup>n\<close>.
\<close>

definition site_operator :: "nat \<Rightarrow> qobj \<Rightarrow> bool" where
  "site_operator n q \<longleftrightarrow> dims q = (replicate n 2, replicate n 2) \<and> shape q = (2 ^ n, 2 ^ n)"

text \<open>
  The nearest-neighbour Hamiltonian in the words of the claim: one term
  \<open>-C6/a\<^sup>6 * n\<^sub>i * n\<^sub>i\<^sub>+\<^sub>1\<close> for each pair of adjacent sites, and nothing else.
\<close>

definition nn_interactions :: "qobj list \<Rightarrow> qobj \<Rightarrow> error + qobj" where
  "nn_interactions ns H0 =
     foldE (\<lambda>i Hc. bindE (getitem ns i) (\<lambda>ni.
                    bindE (getitem ns (i + 1)) (\<lambda>nj.
                    bindE (qmul (smul (- C6 / a ^ 6) ni) nj) (\<lambda>t.
                    qadd Hc t))))
       [0..<Natoms - 1] H0"

section \<open>Lemmas: the error monad and matrices built from an entry function\<close>

lemma bindE_Inr [simp]: "bindE (Inr v) f = f v"
  by (simp add: bindE_def)

lemma bindE_Inl [simp]: "bindE (Inl e) f = Inl e"
  by (simp add: bindE_def)

lemma length_mat [simp]: "length (mat m n f) = m"
  by (simp add: mat_def)

lemma nrows_mat [simp]: "nrows (mat m n f) = m"
  by (simp add: nrows_def)

lemma nrows_Nil [simp]: "nrows [] = 0"
  by (simp add: nrows_def)

lemma mat_zero_rows [simp]: "mat 0 n f = []"
  by (simp add: mat_def)

lemma ncols_mat [simp]: "0 < m \<Longrightarrow> ncols (mat m n f) = n"
  by (simp add: ncols_def mat_def upt_conv_Cons)

lemma nth_mat [simp]: "i < m \<Longrightarrow> j < n \<Longrightarrow> mat m n f ! i ! j = f i j"
  by (simp add: mat_def)

lemma mat_cong:
  assumes "\<And>i j. i < m \<Longrightarrow> j < n \<Longrightarrow> f i j = g i j"
  shows "mat m n f = mat m n g"
  using assms by (simp add: mat_def)

lemma mat_eqI:
  assumes "m' = m" and "0 < m \<Longrightarrow> n' = n"
    and "\<And>i j. i < m \<Longrightarrow> j < n \<Longrightarrow> f i j = g i j"
  shows "mat m' n' f = mat m n g"
proof (cases "m = 0")
  case True
  with assms(1) show ?thesis by simp
next
  case False
  with assms(1,2) have "mat m' n' f = mat m n f" by simp
  also have "\<dots> = mat m n g" by (rule mat_cong) (rule assms(3))
  finally show ?thesis .
qed

lemma msize_mat [simp]: "0 < m \<Longrightarrow> msize (mat m n f) = m * n"
  by (simp add: msize_def)

lemma madd_mat [simp]: "madd (mat m n f) (mat m n g) = mat m n (\<lambda>i j. f i j + g i j)"
  unfolding madd_def by (rule mat_eqI) simp_all

lemma mscale_mat [simp]: "mscale c (mat m n f) = mat m n (\<lambda>i j. c * f i j)"
  unfolding mscale_def by (rule mat_eqI) simp_all

lemma mconj_mat [simp]: "mconj (mat m n f) = mat m n (\<lambda>i j. cnj (f i j))"
  unfolding mconj_def by (rule mat_eqI) simp_all

lemma mdag_mat [simp]: "0 < m \<Longrightarrow> mdag (mat m n f) = mat n m (\<lambda>i j. cnj (f j i))"
  unfolding mdag_def by (rule mat_eqI) simp_all

lemma mtranspose_mat [simp]: "0 < m \<Longrightarrow> mtranspose (mat m n f) = mat n m (\<lambda>i j. f j i)"
  unfolding mtranspose_def by (rule mat_eqI) simp_all

lemma sum_list_upt_lessThan: "(\<Sum>l\<leftarrow>[0..<n]. h l) = (\<Sum>l<n. h l)"
  by (simp add: interv_sum_list_conv_sum_set_nat atLeast0LessThan)

lemma mmul_mat [simp]:
  "0 < n \<Longrightarrow> mmul (mat m n f) (mat n p g) = mat m p (\<lambda>i j. \<Sum>l<n. f i l * g l j)"
  unfolding mmul_def by (rule mat_eqI) (simp_all add: sum_list_upt_lessThan)

lemma kron_mat [simp]:
  "kron (mat m n f) (mat p q g) =
     mat (m * p) (n * q) (\<lambda>i j. f (i div p) (j div q) * g (i mod p) (j mod q))"
  unfolding kron_def
proof (rule mat_eqI)
  show "nrows (mat m n f) * nrows (mat p q g) = m * p" by simp
  show "ncols (mat m n f) * ncols (mat p q g) = n * q" if "0 < m * p"
    using that by simp
  fix i j assume i: "i < m * p" and j: "j < n * q"
  from i have p: "0 < p" by (cases p) auto
  from j have q: "0 < q" by (cases q) auto
  from i have "i div p < m" by (simp add: less_mult_imp_div_less)
  moreover from j have "j div q < n" by (simp add: less_mult_imp_div_less)
  moreover have "i mod p < p" "j mod q < q" using p q by auto
  ultimately show "mat m n f ! (i div nrows (mat p q g)) ! (j div ncols (mat p q g)) *
       mat p q g ! (i mod nrows (mat p q g)) ! (j mod ncols (mat p q g))
     = f (i div p) (j div q) * g (i mod p) (j mod q)" using p by simp
qed


section \<open>The recorded outputs of the pitfalls notebook\<close>

text \<open>
  The notebook prints both states. The model reproduces the printed \<open>dims\<close>, shapes and
  entries: the same column \<open>(1, 0, 0, 0)\<close>, once with \<open>dims = [[4], [1]]\<close> and once with
  \<open>dims = [[2, 2], [1, 1]]\<close>.
\<close>

lemma pitfall_flat_val:
  "pitfall_flat = Inr \<lparr>dims = ([4], [1]), data = [[1], [0], [0], [0]]\<rparr>"
  by (simp add: pitfall_flat_def basis_def mat_def upt_conv_Cons eval_nat_numeral)

lemma pitfall_tensor_val:
  "pitfall_tensor = Inr \<lparr>dims = ([2, 2], [1, 1]), data = [[1], [0], [0], [0]]\<rparr>"
  by code_simp

section \<open>Lemmas: sums over product indices, Kronecker and diagonal matrices\<close>

lemma sum_div_mod:
  fixes F :: "nat \<Rightarrow> nat \<Rightarrow> complex"
  shows "(\<Sum>l<m * n. F (l div n) (l mod n)) = (\<Sum>p<m. \<Sum>q<n. F p q)"
proof -
  have "(\<Sum>l<m * n. F (l div n) (l mod n))
      = (\<Sum>p<m. \<Sum>l = p * n..<p * n + n. F (l div n) (l mod n))"
    by (rule sum.nat_group [symmetric])
  also have "\<dots> = (\<Sum>p<m. \<Sum>q<n. F p q)"
  proof (rule sum.cong [OF refl])
    fix p
    have "(\<Sum>l = p * n..<p * n + n. F (l div n) (l mod n))
        = (\<Sum>l = 0 + p * n..<n + p * n. F (l div n) (l mod n))"
      by (simp add: add.commute)
    also have "\<dots> = (\<Sum>q = 0..<n. F ((q + p * n) div n) ((q + p * n) mod n))"
      by (rule sum.shift_bounds_nat_ivl)
    also have "\<dots> = (\<Sum>q = 0..<n. F p q)"
      by (rule sum.cong) auto
    finally show "(\<Sum>l = p * n..<p * n + n. F (l div n) (l mod n)) = (\<Sum>q<n. F p q)"
      by (simp add: atLeast0LessThan)
  qed
  finally show ?thesis .
qed

lemma kron_mmul:
  assumes n: "0 < n" and q: "0 < q"
  shows "mmul (kron (mat m n f) (mat p q g)) (kron (mat n r f') (mat q s g'))
       = kron (mmul (mat m n f) (mat n r f')) (mmul (mat p q g) (mat q s g'))"
proof -
  have nq: "0 < n * q" using n q by simp
  have "mmul (kron (mat m n f) (mat p q g)) (kron (mat n r f') (mat q s g'))
      = mat (m * p) (r * s) (\<lambda>i j. \<Sum>l<n * q.
          (f (i div p) (l div q) * g (i mod p) (l mod q)) *
          (f' (l div q) (j div s) * g' (l mod q) (j mod s)))"
    using nq by simp
  also have "\<dots> = mat (m * p) (r * s) (\<lambda>i j.
          (\<Sum>l<n. f (i div p) l * f' l (j div s)) * (\<Sum>l<q. g (i mod p) l * g' l (j mod s)))"
  proof (rule mat_cong)
    fix i j
    have "(\<Sum>l<n * q. (f (i div p) (l div q) * g (i mod p) (l mod q)) *
            (f' (l div q) (j div s) * g' (l mod q) (j mod s)))
        = (\<Sum>u<n. \<Sum>v<q. (f (i div p) u * g (i mod p) v) * (f' u (j div s) * g' v (j mod s)))"
      by (rule sum_div_mod)
    also have "\<dots> = (\<Sum>u<n. \<Sum>v<q. (f (i div p) u * f' u (j div s)) * (g (i mod p) v * g' v (j mod s)))"
      by (simp add: mult_ac)
    also have "\<dots> = (\<Sum>l<n. f (i div p) l * f' l (j div s)) * (\<Sum>l<q. g (i mod p) l * g' l (j mod s))"
      by (rule sum_product [symmetric])
    finally show "(\<Sum>l<n * q. (f (i div p) (l div q) * g (i mod p) (l mod q)) *
            (f' (l div q) (j div s) * g' (l mod q) (j mod s)))
        = (\<Sum>l<n. f (i div p) l * f' l (j div s)) * (\<Sum>l<q. g (i mod p) l * g' l (j mod s))" .
  qed
  also have "\<dots> = kron (mmul (mat m n f) (mat n r f')) (mmul (mat p q g) (mat q s g'))"
    using n q by simp
  finally show ?thesis .
qed

lemma kron_mdag:
  assumes "0 < m" and "0 < p"
  shows "mdag (kron (mat m n f) (mat p q g)) = kron (mdag (mat m n f)) (mdag (mat p q g))"
  using assms by simp

lemma div_mod_eq_iff:
  fixes i j n :: nat
  shows "i div n = j div n \<and> i mod n = j mod n \<longleftrightarrow> i = j"
  by (metis div_mult_mod_eq)

lemma meye_mdiag: "meye n = mdiag n (\<lambda>i. 1)"
  by (simp add: meye_def mdiag_def)

lemma mscale_mdiag: "mscale c (mdiag n d) = mdiag n (\<lambda>i. c * d i)"
  unfolding mdiag_def by (simp cong: if_cong) (rule mat_cong, simp)

lemma mdag_mdiag: "mdag (mdiag n d) = mdiag n (\<lambda>i. cnj (d i))"
proof (cases "n = 0")
  case True
  then show ?thesis by (simp add: mdiag_def mdag_def ncols_def)
next
  case False
  then show ?thesis unfolding mdiag_def by simp (rule mat_cong, auto)
qed

lemma mmul_mdiag: "mmul (mdiag n d) (mdiag n e) = mdiag n (\<lambda>i. d i * e i)"
proof (cases "n = 0")
  case True
  then show ?thesis by (simp add: mdiag_def mmul_def)
next
  case False
  then have "mmul (mdiag n d) (mdiag n e)
      = mat n n (\<lambda>i j. \<Sum>l<n. (if i = l then d i else 0) * (if l = j then e l else 0))"
    by (simp add: mdiag_def)
  also have "\<dots> = mdiag n (\<lambda>i. d i * e i)"
    unfolding mdiag_def
  proof (rule mat_cong)
    fix i j assume i: "i < n" and j: "j < n"
    have "(\<Sum>l<n. (if i = l then d i else 0) * (if l = j then e l else 0))
        = (\<Sum>l<n. if l = i then (if i = j then d i * e i else 0) else 0)"
      by (rule sum.cong) auto
    also have "\<dots> = (if i = j then d i * e i else 0)"
      using i by simp
    finally show "(\<Sum>l<n. (if i = l then d i else 0) * (if l = j then e l else 0))
        = (if i = j then d i * e i else 0)" .
  qed
  finally show ?thesis .
qed

lemma kron_mdiag: "kron (mdiag m d) (mdiag n e) = mdiag (m * n) (\<lambda>i. d (i div n) * e (i mod n))"
  unfolding mdiag_def kron_mat
proof (rule mat_cong)
  fix i j
  show "(if i div n = j div n then d (i div n) else 0) * (if i mod n = j mod n then e (i mod n) else 0)
      = (if i = j then d (i div n) * e (i mod n) else 0)"
    using div_mod_eq_iff [of i n j] by auto
qed

lemma mmul_meye_left: "mmul (meye n) (mat n p f) = mat n p f"
proof (cases "n = 0")
  case True
  then show ?thesis by (simp add: meye_def mmul_def)
next
  case False
  then have "mmul (meye n) (mat n p f) = mat n p (\<lambda>i j. \<Sum>l<n. (if i = l then 1 else 0) * f l j)"
    by (simp add: meye_def)
  also have "\<dots> = mat n p f"
  proof (rule mat_cong)
    fix i j assume i: "i < n"
    have "(\<Sum>l<n. (if i = l then 1 else 0) * f l j) = (\<Sum>l<n. if l = i then f l j else 0)"
      by (rule sum.cong) auto
    also have "\<dots> = f i j" using i by simp
    finally show "(\<Sum>l<n. (if i = l then 1 else 0) * f l j) = f i j" .
  qed
  finally show ?thesis .
qed

lemma nrows_mdiag [simp]: "nrows (mdiag n d) = n"
  by (simp add: mdiag_def)

lemma mpow2_mdiag: "mpow (mdiag n d) 2 = mdiag n (\<lambda>i. d i * d i)"
proof -
  have "mpow (mdiag n d) 2 = mmul (mmul (meye n) (mdiag n d)) (mdiag n d)"
    by (simp add: numeral_2_eq_2)
  also have "mmul (meye n) (mdiag n d) = mdiag n d"
    unfolding mdiag_def by (rule mmul_meye_left)
  finally show ?thesis by (simp add: mmul_mdiag)
qed

lemma mat_2_2:
  "[[p, q], [r, s]] = mat 2 2 (\<lambda>i j. if i = 0 then (if j = 0 then p else q) else (if j = 0 then r else s))"
  by (simp add: mat_def upt_conv_Cons numeral_2_eq_2)


section \<open>The operators of the Doppler-cooling notebook in closed form\<close>

lemma mdiv_mat [simp]: "mdiv (mat m n f) c = mat m n (\<lambda>i j. f i j / c)"
  unfolding mdiv_def by (rule mat_eqI) simp_all

lemma mdiv_mdiag: "mdiv (mdiag n d) c = mdiag n (\<lambda>i. d i / c)"
  unfolding mdiag_def by simp (rule mat_cong, simp)

lemma momentum_val:
  "momentum = Inr \<lparr>dims = ([2, 101], [2, 101]),
                   data = mdiag 202 (\<lambda>i. of_int (int (i mod 101) - 50))\<rparr>"
  by (simp add: momentum_def tensor_def tensor2_def qeye_def charge_def nmax_def
      meye_mdiag kron_mdiag)

lemma kinetic_val:
  "kinetic = Inr \<lparr>dims = ([2, 101], [2, 101]),
     data = mdiag 202 (\<lambda>i. of_real (hbarOvermRb * (k * of_int (int (i mod 101) - 50)) ^ 2 / 2))\<rparr>"
  by (simp add: kinetic_def momentum_val qpow_def qtype_of_def smul_def sdiv_def
      mscale_mdiag mpow2_mdiag mdiv_mdiag power2_eq_square)

lemma coupling_val:
  "coupling = Inr \<lparr>dims = ([2, 101], [2, 101]),
     data = mat 202 202 (\<lambda>i j. (if i div 101 = j div 101 then 0 else 1) *
       ((if j mod 101 = i mod 101 + 1 then 1 else 0) + (if i mod 101 = j mod 101 + 1 then 1 else 0)))\<rparr>"
proof -
  have "kron [[0, 1], [1, 0]] (mat 101 101 (\<lambda>i j. (if j = i + 1 then 1 else 0) + (if i = j + 1 then 1 else 0)))
    = mat 202 202 (\<lambda>i j. (if i div 101 = j div 101 then 0 else 1) *
       ((if j mod 101 = i mod 101 + 1 then 1 else 0) + (if i mod 101 = j mod 101 + 1 then 1 else 0)))"
    unfolding mat_2_2 kron_mat
    by (rule mat_eqI) (auto simp: less_mult_imp_div_less)
  then show ?thesis
    by (simp add: coupling_def tunneling_def tensor_def tensor2_def sigmax_def nmax_def)
qed

lemma proj_e_val:
  "bindE (basis 2 1) proj = Inr \<lparr>dims = ([2], [2]), data = mdiag 2 (\<lambda>i. if i = 1 then 1 else 0)\<rparr>"
proof -
  have "mat 2 2 (\<lambda>i j. \<Sum>l<Suc 0. (if i = 1 then 1 else 0) * cnj (if j = 1 then 1 else 0))
      = mdiag 2 (\<lambda>i. if i = 1 then 1 else (0::complex))"
    unfolding mdiag_def by (rule mat_cong) auto
  then show ?thesis
    by (simp add: basis_def proj_def qtype_of_def)
qed

lemma Pe_val:
  "Pe = Inr \<lparr>dims = ([2, 101], [2, 101]),
             data = mdiag 202 (\<lambda>i. if i div 101 = 1 then 1 else 0)\<rparr>"
proof -
  have pe: "Pe = bindE (bindE (basis 2 1) proj) (\<lambda>P. tensor [P, qeye (2 * nmax + 1)])"
    by (simp add: Pe_def bindE_def split: sum.splits)
  show ?thesis
    unfolding pe proj_e_val
    by (simp add: tensor_def tensor2_def qeye_def nmax_def meye_mdiag kron_mdiag)
qed

lemma H_val:
  "H = Inr \<lparr>dims = ([2, 101], [2, 101]),
     data = mat 202 202 (\<lambda>i j.
       (if i = j then of_real (hbarOvermRb * (k * of_int (int (i mod 101) - 50)) ^ 2 / 2) else 0)
       + of_real (fdiv Omega 2) * ((if i div 101 = j div 101 then 0 else 1) *
           ((if j mod 101 = i mod 101 + 1 then 1 else 0) + (if i mod 101 = j mod 101 + 1 then 1 else 0)))
       + - 1 * (of_real delta * (if i = j then (if i div 101 = 1 then 1 else 0) else 0)))\<rparr>"
  unfolding H_def kinetic_val coupling_val Pe_val
  apply (simp add: qadd_def qsub_def qneg_def smul_def shape_def mdiag_def)
  apply (rule mat_cong)
  apply simp
  done


section \<open>Hermiticity of the Doppler-cooling Hamiltonian\<close>

lemma tun_sym: "cnj ((if (j::nat) div n = i div n then 0 else 1) *
           ((if i mod n = j mod n + 1 then 1 else 0) + (if j mod n = i mod n + 1 then 1 else (0::complex))))
  = ((if i div n = j div n then 0 else 1) *
           ((if j mod n = i mod n + 1 then 1 else 0) + (if i mod n = j mod n + 1 then 1 else (0::complex))))"
  by (simp add: eq_commute add.commute)

lemma H_herm: "\<exists>h. H = Inr h \<and> dag h = h"
proof -
  let ?K = "\<lambda>i j::nat.
       (if i = j then of_real (hbarOvermRb * (k * of_int (int (i mod 101) - 50)) ^ 2 / 2) else (0::complex))"
  let ?G = "\<lambda>i j::nat. of_real (fdiv Omega 2) * ((if i div 101 = j div 101 then 0 else 1) *
           ((if j mod 101 = i mod 101 + 1 then 1 else 0) + (if i mod 101 = j mod 101 + 1 then 1 else (0::complex))))"
  let ?P = "\<lambda>i j::nat. - 1 * (of_real delta * (if i = j then (if i div 101 = 1 then 1 else 0) else (0::complex)))"
  have K: "cnj (?K j i) = ?K i j" for i j by auto
  have G: "cnj (?G j i) = ?G i j" for i j
    unfolding complex_cnj_mult [of "of_real (fdiv Omega 2)"] complex_cnj_complex_of_real tun_sym ..
  have P: "cnj (?P j i) = ?P i j" for i j by auto
  have "cnj (?K j i + ?G j i + ?P j i) = ?K i j + ?G i j + ?P i j" for i j
    unfolding complex_cnj_add K G P ..
  then have "mat 202 202 (\<lambda>i j. cnj (?K j i + ?G j i + ?P j i)) = mat 202 202 (\<lambda>i j. ?K i j + ?G i j + ?P i j)"
    by (intro mat_cong)
  then have "dag \<lparr>dims = ([2, 101], [2, 101]), data = mat 202 202 (\<lambda>i j. ?K i j + ?G i j + ?P i j)\<rparr>
      = \<lparr>dims = ([2, 101], [2, 101]), data = mat 202 202 (\<lambda>i j. ?K i j + ?G i j + ?P i j)\<rparr>"
    by (simp only: dag_def qobj.simps fst_conv snd_conv mdag_mat zero_less_numeral)
  then show ?thesis unfolding H_val by blast
qed

lemma coupling_sym:
  "\<exists>c. coupling = Inr c \<and> mtranspose (data c) = data c \<and> mconj (data c) = data c"
proof -
  let ?G = "\<lambda>i j. (if i div 101 = j div 101 then 0 else 1) *
       ((if j mod 101 = i mod 101 + 1 then 1 else 0) + (if i mod 101 = j mod 101 + 1 then 1 else (0::complex)))"
  have "mat 202 202 (\<lambda>i j. ?G j i) = mat 202 202 ?G"
    by (rule mat_cong) auto
  moreover have "mat 202 202 (\<lambda>i j. cnj (?G i j)) = mat 202 202 ?G"
    by (rule mat_cong) auto
  ultimately show ?thesis unfolding coupling_val by simp
qed

lemma Pe_projector: "\<exists>p. Pe = Inr p \<and> dag p = p \<and> qmul p p = Inr p"
  unfolding Pe_val
  apply (simp add: dag_def qmul_def mdag_mdiag mmul_mdiag tidy_dims_def keep_unmasked_def)
  apply (intro conjI)
   apply (simp add: mdiag_def, rule mat_cong, simp)
  apply (simp add: mdiag_def, rule mat_cong, simp)
  done


section \<open>Lemmas: evaluating the double-precision scalars\<close>

text \<open>
  A real whose scaled value lies within half a unit of an integer of 53 bits rounds to
  that integer; for a square root the two bounds are compared after squaring.
\<close>

lemma round_even_near:
  assumes "\<bar>y - of_int M\<bar> < 1 / 2"
  shows "round_even y = M"
proof (cases "of_int M \<le> y")
  case True
  with assms have "\<lfloor>y\<rfloor> = M" by (intro floor_unique) auto
  with assms True show ?thesis by (simp add: round_even_def Let_def)
next
  case False
  with assms have f: "\<lfloor>y\<rfloor> = M - 1" by (intro floor_unique) auto
  from assms False have "1 / 2 < y - of_int (M - 1)" by simp
  with f show ?thesis by (simp add: round_even_def Let_def)
qed

lemma fl_eq_div:
  fixes M :: int and n :: nat
  assumes lo: "2 ^ 52 \<le> x * 2 ^ n" and hi: "x * 2 ^ n < 2 ^ 53"
    and near: "\<bar>x * 2 ^ n - of_int M\<bar> < 1 / 2" and n: "n \<le> 1074"
  shows "fl x = of_int M / 2 ^ n"
proof -
  have pos: "0 < x"
  proof (rule ccontr)
    assume "\<not> 0 < x"
    then have "x * 2 ^ n \<le> 0" by (simp add: mult_le_0_iff)
    with lo show False by (smt (verit) zero_less_power)
  qed
  have p: "2 powr (- real n) = 1 / 2 ^ n"
    by (simp add: powr_minus_divide powr_realpow)
  have q: "2 powr (52 - real n) = 2 ^ 52 / 2 ^ n" "2 powr (53 - real n) = 2 ^ 53 / 2 ^ n"
    by (simp_all add: powr_diff powr_realpow)
  have "2 ^ 52 / 2 ^ n \<le> x" using lo by (simp add: pos_divide_le_eq)
  moreover have "x < 2 ^ 53 / 2 ^ n" using hi by (simp add: pos_less_divide_eq)
  moreover have "real_of_int (52 - int n) = 52 - real n" "real_of_int (52 - int n) + 1 = 53 - real n"
    by simp_all
  ultimately have "2 powr of_int (52 - int n) \<le> x" "x < 2 powr (of_int (52 - int n) + 1)"
    using q by simp_all
  then have "\<lfloor>log 2 x\<rfloor> = 52 - int n"
    using pos by (subst floor_log_eq_powr_iff) simp_all
  then have e: "max \<lfloor>log 2 \<bar>x\<bar>\<rfloor> (- 1022) - 52 = - int n"
    using pos n by simp
  have pe: "2 powr real_of_int (- int n) = 1 / 2 ^ n"
    using p by simp
  have ye: "x / 2 powr real_of_int (- int n) = x * 2 ^ n"
    unfolding pe by simp
  show ?thesis
    unfolding fl_def Let_def e ye pe
    using pos round_even_near [OF near] by simp
qed

lemma np_sqrt_eq_div:
  fixes M :: int and n :: nat
  assumes M: "M < 2 ^ 53" and lo: "2 ^ 104 \<le> x * 4 ^ n"
    and below: "(2 * of_int M - 1)\<^sup>2 < 4 * (x * 4 ^ n)"
    and above: "4 * (x * 4 ^ n) < (2 * of_int M + 1)\<^sup>2"
    and n: "n \<le> 1074"
  shows "np_sqrt x = of_int M / 2 ^ n"
proof -
  have s: "sqrt (4 * (x * 4 ^ n)) = 2 * (sqrt x * 2 ^ n)"
    by (simp add: real_sqrt_mult real_sqrt_power flip: power2_eq_square)
  have Mpos: "(0::real) \<le> 2 * of_int M + 1"
  proof (rule ccontr)
    assume "\<not> (0::real) \<le> 2 * of_int M + 1"
    then have "M < 0" by linarith
    then have "(2 * real_of_int M + 1)\<^sup>2 \<le> (2 * real_of_int M - 1)\<^sup>2"
      by (simp add: power2_eq_square algebra_simps)
    with below above show False by linarith
  qed
  have "2 * of_int M - 1 < sqrt (4 * (x * 4 ^ n))"
    using below by (rule real_less_rsqrt)
  moreover have "sqrt (4 * (x * 4 ^ n)) < 2 * of_int M + 1"
    using Mpos above by (rule real_less_lsqrt)
  ultimately have near: "\<bar>sqrt x * 2 ^ n - of_int M\<bar> < 1 / 2"
    unfolding s by linarith
  have "sqrt (2 ^ 104) \<le> sqrt (x * 4 ^ n)"
    using lo by (rule real_sqrt_le_mono)
  moreover have "sqrt (2 ^ 104) = (2::real) ^ 52"
    by (rule real_sqrt_unique) simp_all
  moreover have "sqrt (x * 4 ^ n) = sqrt x * 2 ^ n"
    by (simp add: real_sqrt_mult real_sqrt_power)
  ultimately have lo': "2 ^ 52 \<le> sqrt x * 2 ^ n" by simp
  have "sqrt x * 2 ^ n < of_int M + 1 / 2" using near by linarith
  also have "\<dots> < 2 ^ 53" using M
  proof -
    from M have "M + 1 \<le> 2 ^ 53" by simp
    then have "real_of_int (M + 1) \<le> real_of_int (2 ^ 53)" by (rule of_int_le_iff [THEN iffD2])
    then show "real_of_int M + 1 / 2 < 2 ^ 53" by simp
  qed
  finally have hi': "sqrt x * 2 ^ n < 2 ^ 53" .
  show ?thesis unfolding np_sqrt_def using lo' hi' near n by (rule fl_eq_div)
qed

text \<open>
  The scalars of the second cell of the Doppler-cooling notebook, each as a mantissa over a
  power of two: \<open>Gamma\<close> is the double \<open>0x1.dfab0f5d2b6cdp+25\<close>.
\<close>

lemma mRb_val: "mRb = 6651094288739787 / 2 ^ 137"
  unfolding mRb_def
  using fl_eq_div [of "38175409 / 10 ^ 33" 137 6651094288739787] by simp

lemma hbar_val: "hbar = 4932018501376161 / 2 ^ 165"
  unfolding hbar_def
  using fl_eq_div [of "105457 / 10 ^ 39" 165 4932018501376161] by simp

lemma hbarOvermRb_val: "hbarOvermRb = 6679152548652456 / 2 ^ 81"
  unfolding hbarOvermRb_def fdiv_def hbar_val mRb_val
  using fl_eq_div [of "(4932018501376161 / 2 ^ 165) / (6651094288739787 / 2 ^ 137)" 81 6679152548652456]
  by simp

lemma lambda_val: "fl (589 / 10 ^ 9) = 5562947716820442 / 2 ^ 73"
  using fl_eq_div [of "589 / 10 ^ 9" 73 5562947716820442] by simp

lemma two_pi_val: "fmul 2 np_pi = 7074237752028440 / 2 ^ 50"
  unfolding fmul_def np_pi_def
  using fl_eq_div [of "2 * (7074237752028440 / 2 ^ 51)" 50 7074237752028440] by simp

lemma k_val: "k = 5727095799882011 / 2 ^ 29"
  unfolding k_def two_pi_val lambda_val fdiv_def
  using fl_eq_div [of "(7074237752028440 / 2 ^ 50) / (5562947716820442 / 2 ^ 73)" 29 5727095799882011]
  by simp

lemma k_sq_val: "fpow k 2 = 7282980063700022 / 2 ^ 6"
  unfolding fpow_def k_val
  using fl_eq_div [of "(5727095799882011 / 2 ^ 29) ^ 2" 6 7282980063700022]
  by (simp add: power2_eq_square)

lemma Gamma_val: "Gamma = 8438412270024397 / 2 ^ 27"
proof -
  have g1: "fmul 200 hbar = 7706278908400252 / 2 ^ 158"
    unfolding fmul_def hbar_val
    using fl_eq_div [of "200 * (4932018501376161 / 2 ^ 165)" 158 7706278908400252] by simp
  have g2: "fmul (7706278908400252 / 2 ^ 158) (7282980063700022 / 2 ^ 6) = 6231090716201205 / 2 ^ 111"
    unfolding fmul_def
    using fl_eq_div [of "(7706278908400252 / 2 ^ 158) * (7282980063700022 / 2 ^ 6)" 111 6231090716201205]
    by simp
  have g3: "fdiv (6231090716201205 / 2 ^ 111) (6651094288739787 / 2 ^ 137) = 8438412270024397 / 2 ^ 27"
    unfolding fdiv_def
    using fl_eq_div [of "(6231090716201205 / 2 ^ 111) / (6651094288739787 / 2 ^ 137)" 27 8438412270024397]
    by simp
  show ?thesis
    unfolding Gamma_def g1 k_sq_val g2 mRb_val g3 ..
qed

lemma c0_coef_val: "c0_coef = 6753064224917204 / 2 ^ 40"
proof -
  have f: "fdiv 3 5 = 5404319552844595 / 2 ^ 53"
    unfolding fdiv_def using fl_eq_div [of "3 / 5" 53 5404319552844595] by simp
  have x: "fmul (5404319552844595 / 2 ^ 53) (8438412270024397 / 2 ^ 27) = 5063047362014638 / 2 ^ 27"
    unfolding fmul_def
    using fl_eq_div [of "(5404319552844595 / 2 ^ 53) * (8438412270024397 / 2 ^ 27)" 27 5063047362014638]
    by simp
  have s: "np_sqrt (5063047362014638 / 2 ^ 27) = 6753064224917204 / 2 ^ 40"
    using np_sqrt_eq_div [of 6753064224917204 "5063047362014638 / 2 ^ 27" 40]
    by (simp add: power2_eq_square)
  show ?thesis unfolding c0_coef_def f Gamma_val x s ..
qed

lemma ck_coef_val: "ck_coef = 7797766896221558 / 2 ^ 41"
proof -
  have f: "fdiv 1 5 = 7205759403792794 / 2 ^ 55"
    unfolding fdiv_def using fl_eq_div [of "1 / 5" 55 7205759403792794] by simp
  have x: "fmul (7205759403792794 / 2 ^ 55) (8438412270024397 / 2 ^ 27) = 6750729816019518 / 2 ^ 29"
    unfolding fmul_def
    using fl_eq_div [of "(7205759403792794 / 2 ^ 55) * (8438412270024397 / 2 ^ 27)" 29 6750729816019518]
    by simp
  have s: "np_sqrt (6750729816019518 / 2 ^ 29) = 7797766896221558 / 2 ^ 41"
    using np_sqrt_eq_div [of 7797766896221558 "6750729816019518 / 2 ^ 29" 41]
    by (simp add: power2_eq_square)
  show ?thesis unfolding ck_coef_def f Gamma_val x s ..
qed

lemma interior_exact:
  "c0_coef\<^sup>2 + ck_coef\<^sup>2 + ck_coef\<^sup>2 = 38003230354880496129914583575649 / 2 ^ 79"
  unfolding c0_coef_val ck_coef_val by (simp add: power2_eq_square)

lemma interior_ne: "c0_coef\<^sup>2 + ck_coef\<^sup>2 + ck_coef\<^sup>2 \<noteq> Gamma"
  unfolding interior_exact Gamma_val by simp

lemma interior_close: "\<bar>c0_coef\<^sup>2 + ck_coef\<^sup>2 + ck_coef\<^sup>2 - Gamma\<bar> < 1 / 2 ^ 27"
  unfolding interior_exact Gamma_val by simp

lemma edge_exact: "c0_coef\<^sup>2 + ck_coef\<^sup>2 = 60805168567808794736844911164457 / 2 ^ 80"
  unfolding c0_coef_val ck_coef_val by (simp add: power2_eq_square)

lemma edge_ne: "c0_coef\<^sup>2 + ck_coef\<^sup>2 \<noteq> 4 / 5 * Gamma"
  unfolding edge_exact Gamma_val by simp

lemma edge_close: "\<bar>c0_coef\<^sup>2 + ck_coef\<^sup>2 - 4 / 5 * Gamma\<bar> < 1 / 2 ^ 27"
  unfolding edge_exact Gamma_val by simp

lemma interior_double:
  "fadd (fadd (fmul c0_coef c0_coef) (fmul ck_coef ck_coef)) (fmul ck_coef ck_coef)
     = 8438412270024396 / 2 ^ 27"
proof -
  have a: "fmul (6753064224917204 / 2 ^ 40) (6753064224917204 / 2 ^ 40) = 5063047362014638 / 2 ^ 27"
    unfolding fmul_def
    using fl_eq_div [of "(6753064224917204 / 2 ^ 40) * (6753064224917204 / 2 ^ 40)" 27 5063047362014638]
    by simp
  have b: "fmul (7797766896221558 / 2 ^ 41) (7797766896221558 / 2 ^ 41) = 6750729816019517 / 2 ^ 29"
    unfolding fmul_def
    using fl_eq_div [of "(7797766896221558 / 2 ^ 41) * (7797766896221558 / 2 ^ 41)" 29 6750729816019517]
    by simp
  have c: "fadd (5063047362014638 / 2 ^ 27) (6750729816019517 / 2 ^ 29) = 6750729816019517 / 2 ^ 27"
    unfolding fadd_def
    using fl_eq_div [of "5063047362014638 / 2 ^ 27 + 6750729816019517 / 2 ^ 29" 27 6750729816019517]
    by simp
  have d: "fadd (6750729816019517 / 2 ^ 27) (6750729816019517 / 2 ^ 29) = 8438412270024396 / 2 ^ 27"
    unfolding fadd_def
    using fl_eq_div [of "6750729816019517 / 2 ^ 27 + 6750729816019517 / 2 ^ 29" 27 8438412270024396]
    by simp
  show ?thesis unfolding c0_coef_val ck_coef_val a b c d ..
qed

section \<open>The scattering operators of the jump channels\<close>

lemma madd_mdiag: "madd (mdiag n d) (mdiag n e) = mdiag n (\<lambda>i. d i + e i)"
  unfolding mdiag_def by simp (rule mat_cong, simp)

lemma mdag_mscale:
  "0 < m \<Longrightarrow> mdag (mscale c (mat m n f)) = mscale (cnj c) (mdag (mat m n f))"
  by simp

lemma mmul_mscale:
  assumes "0 < n"
  shows "mmul (mscale c (mat m n f)) (mscale c' (mat n p g)) = mscale (c * c') (mmul (mat m n f) (mat n p g))"
proof -
  have "(\<Sum>l<n. c * f i l * (c' * g l j)) = c * c' * (\<Sum>l<n. f i l * g l j)" for i j
    by (simp add: sum_distrib_left mult_ac)
  then show ?thesis using assms by simp
qed

text \<open>The scattering operator of a scaled tensor product.\<close>

lemma CdagC_kron:
  assumes n: "0 < n"
  shows "mmul (mdag (mscale c (kron (mat 2 2 d) (mat n n s)))) (mscale c (kron (mat 2 2 d) (mat n n s)))
       = mscale (cnj c * c) (kron (mmul (mdag (mat 2 2 d)) (mat 2 2 d)) (mmul (mdag (mat n n s)) (mat n n s)))"
proof -
  let ?A = "mat 2 2 d" and ?B = "mat n n s"
  let ?A' = "mat 2 2 (\<lambda>i j. cnj (d j i))" and ?B' = "mat n n (\<lambda>i j. cnj (s j i))"
  have A': "mdag ?A = ?A'" by simp
  have B': "mdag ?B = ?B'" using n by simp
  obtain F where F: "kron ?A ?B = mat (2 * n) (2 * n) F" by (simp only: kron_mat)
  obtain F' where F': "kron ?A' ?B' = mat (2 * n) (2 * n) F'" by (simp only: kron_mat)
  have dagk: "mdag (kron ?A ?B) = kron ?A' ?B'"
    using kron_mdag [of 2 n 2 d n s] n by (simp only: A' B' zero_less_numeral)
  have "mmul (mdag (mscale c (kron ?A ?B))) (mscale c (kron ?A ?B))
      = mmul (mscale (cnj c) (mdag (mat (2 * n) (2 * n) F))) (mscale c (mat (2 * n) (2 * n) F))"
    unfolding F using n by (subst mdag_mscale) simp_all
  also have "mdag (mat (2 * n) (2 * n) F) = mat (2 * n) (2 * n) F'"
    using dagk unfolding F F' .
  also have "mmul (mscale (cnj c) (mat (2 * n) (2 * n) F')) (mscale c (mat (2 * n) (2 * n) F))
      = mscale (cnj c * c) (mmul (mat (2 * n) (2 * n) F') (mat (2 * n) (2 * n) F))"
    using n by (intro mmul_mscale) simp
  also have "mmul (mat (2 * n) (2 * n) F') (mat (2 * n) (2 * n) F) = mmul (kron ?A' ?B') (kron ?A ?B)"
    unfolding F F' ..
  also have "\<dots> = kron (mmul ?A' ?A) (mmul ?B' ?B)"
    using n by (intro kron_mmul) simp_all
  finally show ?thesis unfolding A' B' .
qed

lemma decay_dag_decay:
  "mmul (mdag (mat 2 2 (\<lambda>i j. if i = 0 then (if j = 0 then 0 else 1) else (if j = 0 then 0 else 0))))
        (mat 2 2 (\<lambda>i j. if i = 0 then (if j = 0 then 0 else 1) else (if j = 0 then 0 else 0)))
   = mdiag 2 (\<lambda>i. if i = 1 then 1 else 0)"
  unfolding mdiag_def
  by simp (rule mat_cong, auto simp: numeral_2_eq_2)

lemma meye_dag_meye: "mmul (mdag (meye n)) (meye n) = meye n"
  by (simp add: meye_mdiag mdag_mdiag mmul_mdiag)

lemma up_dag_up:
  "mmul (mdag (mat n n (\<lambda>i j. if j = i + 1 then 1 else 0))) (mat n n (\<lambda>i j. if j = i + 1 then 1 else 0))
   = mdiag n (\<lambda>i. if 1 \<le> i then 1 else 0)"
proof (cases "n = 0")
  case True
  then show ?thesis by (simp add: mdiag_def mdag_def mmul_def ncols_def)
next
  case False
  have "(\<Sum>l<n. cnj (if i = l + 1 then 1 else 0) * (if j = l + 1 then 1 else 0))
        = (if i = j then (if 1 \<le> i then 1 else 0) else (0::complex))"
    if i: "i < n" for i j
  proof -
    have "(\<Sum>l<n. cnj (if i = l + 1 then 1 else 0) * (if j = l + 1 then 1 else 0))
        = (\<Sum>l<n. if l = i - 1 then (if 1 \<le> i \<and> i = j then 1 else 0) else (0::complex))"
      by (rule sum.cong) auto
    also have "\<dots> = (if 1 \<le> i \<and> i = j then 1 else 0)"
      using i by simp
    finally show ?thesis by auto
  qed
  then show ?thesis
    unfolding mdiag_def using False by simp (rule mat_cong, simp)
qed

lemma down_dag_down:
  "mmul (mdag (mat n n (\<lambda>i j. if i = j + 1 then 1 else 0))) (mat n n (\<lambda>i j. if i = j + 1 then 1 else 0))
   = mdiag n (\<lambda>i. if i + 1 < n then 1 else 0)"
proof (cases "n = 0")
  case True
  then show ?thesis by (simp add: mdiag_def mdag_def mmul_def ncols_def)
next
  case False
  have "(\<Sum>l<n. cnj (if l = i + 1 then 1 else 0) * (if l = j + 1 then 1 else 0))
        = (if i = j then (if i + 1 < n then 1 else 0) else (0::complex))" for i j
  proof -
    have "(\<Sum>l<n. cnj (if l = i + 1 then 1 else 0) * (if l = j + 1 then 1 else 0))
        = (\<Sum>l<n. if l = i + 1 then (if i = j then 1 else 0) else (0::complex))"
      by (rule sum.cong) auto
    also have "\<dots> = (if i + 1 < n then (if i = j then 1 else 0) else 0)"
      by simp
    finally show ?thesis by auto
  qed
  then show ?thesis
    unfolding mdiag_def using False by simp
qed

lemma C0_val:
  "C0 = Inr \<lparr>dims = ([2, 101], [2, 101]),
     data = mscale (of_real c0_coef)
       (kron (mat 2 2 (\<lambda>i j. if i = 0 then (if j = 0 then 0 else 1) else (if j = 0 then 0 else 0)))
             (mat 101 101 (\<lambda>i j. if i = j then 1 else 0)))\<rparr>"
  by (simp only: C0_def decay_def Qobj_def tensor_def tensor2_def qeye_def nmax_def smul_def
      meye_def mat_2_2 bindE_Inr list.case foldl.simps qobj.simps fst_conv snd_conv append.simps
      nrows_mat ncols_mat zero_less_numeral)
    simp

lemma mdiag_cong: "(\<And>i. i < n \<Longrightarrow> d i = e i) \<Longrightarrow> mdiag n d = mdiag n e"
  unfolding mdiag_def by (rule mat_cong) simp

lemma ncols_mdiag [simp]: "0 < n \<Longrightarrow> ncols (mdiag n d) = n"
  by (simp add: mdiag_def)

lemma msize_mdiag [simp]: "0 < n \<Longrightarrow> msize (mdiag n d) = n * n"
  by (simp add: mdiag_def)

lemma id_dag_id:
  "mmul (mdag (mat n n (\<lambda>i j. if i = j then 1 else 0))) (mat n n (\<lambda>i j. if i = j then 1 else 0))
   = mdiag n (\<lambda>i. 1)"
  using meye_dag_meye [of n] by (simp only: meye_def meye_mdiag mdiag_def)

lemma tidy_dims_2n: "1 < n \<Longrightarrow> tidy_dims ([2, n], [2, n]) = ([2, n], [2, n])"
  by (simp add: tidy_dims_def keep_unmasked_def)

lemma channel_CdagC:
  fixes c :: real
  assumes n: "1 < n"
    and S: "mmul (mdag (mat n n s)) (mat n n s) = mdiag n w"
  shows "CdagC \<lparr>dims = ([2, n], [2, n]),
           data = mscale (of_real c)
             (kron (mat 2 2 (\<lambda>i j. if i = 0 then (if j = 0 then 0 else 1) else (if j = 0 then 0 else 0)))
                   (mat n n s))\<rparr>
       = Inr \<lparr>dims = ([2, n], [2, n]),
           data = mdiag (2 * n) (\<lambda>i. if i div n = 1 then of_real (c\<^sup>2) * w (i mod n) else 0)\<rparr>"
proof -
  let ?c = "of_real c :: complex"
  let ?d = "\<lambda>i j::nat. if i = 0 then (if j = 0 then 0 else 1) else (if j = 0 then 0 else (0::complex))"
  let ?X = "mscale ?c (kron (mat 2 2 ?d) (mat n n s))"
  have c2: "cnj ?c * ?c = of_real (c\<^sup>2)"
    by (simp add: power2_eq_square)
  have "mmul (mdag ?X) ?X
      = mscale (cnj ?c * ?c) (kron (mmul (mdag (mat 2 2 ?d)) (mat 2 2 ?d)) (mmul (mdag (mat n n s)) (mat n n s)))"
    using n by (intro CdagC_kron) simp
  also have "\<dots> = mscale (of_real (c\<^sup>2)) (kron (mdiag 2 (\<lambda>i. if i = 1 then 1 else 0)) (mdiag n w))"
    unfolding c2 decay_dag_decay S ..
  also have "\<dots> = mdiag (2 * n) (\<lambda>i. of_real (c\<^sup>2) * ((if i div n = 1 then 1 else 0) * w (i mod n)))"
    by (simp only: kron_mdiag mscale_mdiag)
  also have "\<dots> = mdiag (2 * n) (\<lambda>i. if i div n = 1 then of_real (c\<^sup>2) * w (i mod n) else 0)"
    by (rule mdiag_cong) simp
  finally have "mmul (mdag ?X) ?X
      = mdiag (2 * n) (\<lambda>i. if i div n = 1 then of_real (c\<^sup>2) * w (i mod n) else 0)" .
  then show ?thesis
    using n by (simp only: CdagC_def dag_def qmul_def qobj.simps fst_conv snd_conv simp_thms if_True tidy_dims_2n)
qed

lemma qdiags_up: "data (qdiags_ones L 1) = mat (L + 1) (L + 1) (\<lambda>i j. if j = i + 1 then 1 else 0)"
  by (simp add: qdiags_ones_def Let_def) (rule mat_cong, auto)

lemma qdiags_down: "data (qdiags_ones L (- 1)) = mat (L + 1) (L + 1) (\<lambda>i j. if i = j + 1 then 1 else 0)"
  by (simp add: qdiags_ones_def Let_def) (rule mat_cong, auto)

lemma dims_qdiags: "dims (qdiags_ones L 1) = ([L + 1], [L + 1])" "dims (qdiags_ones L (- 1)) = ([L + 1], [L + 1])"
  by (simp_all add: qdiags_ones_def Let_def)

lemma Cmk_val:
  "Cmk = Inr \<lparr>dims = ([2, 101], [2, 101]),
     data = mscale (of_real ck_coef)
       (kron (mat 2 2 (\<lambda>i j. if i = 0 then (if j = 0 then 0 else 1) else (if j = 0 then 0 else 0)))
             (mat 101 101 (\<lambda>i j. if j = i + 1 then 1 else 0)))\<rparr>"
proof -
  have "data (qdiags_ones (2 * nmax) 1) = mat 101 101 (\<lambda>i j. if j = i + 1 then 1 else 0)"
    unfolding qdiags_up by (simp add: nmax_def)
  moreover have "dims (qdiags_ones (2 * nmax) 1) = ([101], [101])"
    unfolding dims_qdiags by (simp add: nmax_def)
  ultimately show ?thesis
    by (simp only: Cmk_def decay_def Qobj_def tensor_def tensor2_def smul_def
      mat_2_2 bindE_Inr list.case foldl.simps qobj.simps fst_conv snd_conv append.simps
      nrows_mat ncols_mat zero_less_numeral)
qed

lemma Cpk_val:
  "Cpk = Inr \<lparr>dims = ([2, 101], [2, 101]),
     data = mscale (of_real ck_coef)
       (kron (mat 2 2 (\<lambda>i j. if i = 0 then (if j = 0 then 0 else 1) else (if j = 0 then 0 else 0)))
             (mat 101 101 (\<lambda>i j. if i = j + 1 then 1 else 0)))\<rparr>"
proof -
  have "data (qdiags_ones (2 * nmax) (- 1)) = mat 101 101 (\<lambda>i j. if i = j + 1 then 1 else 0)"
    unfolding qdiags_down by (simp add: nmax_def)
  moreover have "dims (qdiags_ones (2 * nmax) (- 1)) = ([101], [101])"
    unfolding dims_qdiags by (simp add: nmax_def)
  ultimately show ?thesis
    by (simp only: Cpk_def decay_def Qobj_def tensor_def tensor2_def smul_def
      mat_2_2 bindE_Inr list.case foldl.simps qobj.simps fst_conv snd_conv append.simps
      nrows_mat ncols_mat zero_less_numeral)
qed

lemma CdagC_C0:
  "bindE C0 CdagC = Inr \<lparr>dims = ([2, 101], [2, 101]),
      data = mdiag 202 (\<lambda>i. if i div 101 = 1 then of_real (c0_coef\<^sup>2) * 1 else 0)\<rparr>"
  unfolding C0_val bindE_Inr
  using channel_CdagC [of 101 _ _ c0_coef, OF _ id_dag_id] by simp

lemma CdagC_Cmk:
  "bindE Cmk CdagC = Inr \<lparr>dims = ([2, 101], [2, 101]),
      data = mdiag 202 (\<lambda>i. if i div 101 = 1 then of_real (ck_coef\<^sup>2) * (if 1 \<le> i mod 101 then 1 else 0) else 0)\<rparr>"
  unfolding Cmk_val bindE_Inr
  using channel_CdagC [of 101 _ _ ck_coef, OF _ up_dag_up] by simp

lemma CdagC_Cpk:
  "bindE Cpk CdagC = Inr \<lparr>dims = ([2, 101], [2, 101]),
      data = mdiag 202 (\<lambda>i. if i div 101 = 1 then of_real (ck_coef\<^sup>2) * (if i mod 101 + 1 < 101 then 1 else 0) else 0)\<rparr>"
  unfolding Cpk_val bindE_Inr
  using channel_CdagC [of 101 _ _ ck_coef, OF _ down_dag_down] by simp

lemma qadd_mdiag:
  assumes "1 < n"
  shows "qadd \<lparr>dims = ds, data = mdiag n d\<rparr> \<lparr>dims = ds, data = mdiag n e\<rparr>
       = Inr \<lparr>dims = ds, data = mdiag n (\<lambda>i. d i + e i)\<rparr>"
proof -
  have "n * n \<noteq> 1" using assms by simp
  then show ?thesis using assms
    by (simp add: qadd_def shape_def madd_mdiag)
qed

lemma CdagC_sum_val:
  "CdagC_sum = Inr \<lparr>dims = ([2, 101], [2, 101]),
      data = mdiag 202 (\<lambda>i. if i div 101 = 1
               then (if i mod 101 = 0 \<or> i mod 101 = 100
                     then of_real (c0_coef\<^sup>2 + ck_coef\<^sup>2)
                     else of_real (c0_coef\<^sup>2 + ck_coef\<^sup>2 + ck_coef\<^sup>2))
               else 0)\<rparr>"
proof -
  note c0 = CdagC_C0 [unfolded C0_val bindE_Inr]
  note cm = CdagC_Cmk [unfolded Cmk_val bindE_Inr]
  note cp = CdagC_Cpk [unfolded Cpk_val bindE_Inr]
  have "CdagC_sum = Inr \<lparr>dims = ([2, 101], [2, 101]),
      data = mdiag 202 (\<lambda>i.
         (if i div 101 = 1 then of_real (c0_coef\<^sup>2) * 1 else 0)
       + (if i div 101 = 1 then of_real (ck_coef\<^sup>2) * (if 1 \<le> i mod 101 then 1 else 0) else 0)
       + (if i div 101 = 1 then of_real (ck_coef\<^sup>2) * (if i mod 101 + 1 < 101 then 1 else 0) else 0))\<rparr>"
    unfolding CdagC_sum_def C0_val Cmk_val Cpk_val bindE_Inr c0 cm cp
    by (simp only: qadd_mdiag [of 202, simplified] bindE_Inr)
  also have "mdiag 202 (\<lambda>i.
         (if i div 101 = 1 then of_real (c0_coef\<^sup>2) * 1 else 0)
       + (if i div 101 = 1 then of_real (ck_coef\<^sup>2) * (if 1 \<le> i mod 101 then 1 else 0) else 0)
       + (if i div 101 = 1 then of_real (ck_coef\<^sup>2) * (if i mod 101 + 1 < 101 then 1 else 0) else 0))
     = mdiag 202 (\<lambda>i. if i div 101 = 1
               then (if i mod 101 = 0 \<or> i mod 101 = 100
                     then of_real (c0_coef\<^sup>2 + ck_coef\<^sup>2)
                     else of_real (c0_coef\<^sup>2 + ck_coef\<^sup>2 + ck_coef\<^sup>2))
               else 0)"
  proof (rule mdiag_cong)
    fix i :: nat
    have "i mod 101 < 101" by simp
    then show "(if i div 101 = 1 then of_real (c0_coef\<^sup>2) * 1 else 0)
       + (if i div 101 = 1 then of_real (ck_coef\<^sup>2) * (if 1 \<le> i mod 101 then 1 else 0) else 0)
       + (if i div 101 = 1 then of_real (ck_coef\<^sup>2) * (if i mod 101 + 1 < 101 then 1 else 0) else 0)
       = (if i div 101 = 1
               then (if i mod 101 = 0 \<or> i mod 101 = 100
                     then complex_of_real (c0_coef\<^sup>2 + ck_coef\<^sup>2)
                     else of_real (c0_coef\<^sup>2 + ck_coef\<^sup>2 + ck_coef\<^sup>2))
               else 0)"
      by auto
  qed
  finally show ?thesis .
qed

lemma Gamma_Pe_val:
  "Gamma_Pe = Inr \<lparr>dims = ([2, 101], [2, 101]),
      data = mdiag 202 (\<lambda>i. if i div 101 = 1 then of_real Gamma else 0)\<rparr>"
  unfolding Gamma_Pe_def Pe_val bindE_Inr
  by (simp add: smul_def mscale_mdiag) (rule mdiag_cong, simp)

lemma entry_mdiag:
  assumes "i < n"
  shows "entry (Inr \<lparr>dims = ds, data = mdiag n d\<rparr>) i i = Inr (d i)"
  using assms by (simp add: entry_def getitem_def mdiag_def mat_def)

lemma edge_double:
  "fadd (fmul c0_coef c0_coef) (fmul ck_coef ck_coef) = 6750729816019517 / 2 ^ 27"
  "fmul (fdiv 4 5) Gamma = 6750729816019518 / 2 ^ 27"
proof -
  have a: "fmul (6753064224917204 / 2 ^ 40) (6753064224917204 / 2 ^ 40) = 5063047362014638 / 2 ^ 27"
    unfolding fmul_def
    using fl_eq_div [of "(6753064224917204 / 2 ^ 40) * (6753064224917204 / 2 ^ 40)" 27 5063047362014638]
    by simp
  have b: "fmul (7797766896221558 / 2 ^ 41) (7797766896221558 / 2 ^ 41) = 6750729816019517 / 2 ^ 29"
    unfolding fmul_def
    using fl_eq_div [of "(7797766896221558 / 2 ^ 41) * (7797766896221558 / 2 ^ 41)" 29 6750729816019517]
    by simp
  have c: "fadd (5063047362014638 / 2 ^ 27) (6750729816019517 / 2 ^ 29) = 6750729816019517 / 2 ^ 27"
    unfolding fadd_def
    using fl_eq_div [of "5063047362014638 / 2 ^ 27 + 6750729816019517 / 2 ^ 29" 27 6750729816019517]
    by simp
  show "fadd (fmul c0_coef c0_coef) (fmul ck_coef ck_coef) = 6750729816019517 / 2 ^ 27"
    unfolding c0_coef_val ck_coef_val a b c ..
  have f: "fdiv 4 5 = 7205759403792794 / 2 ^ 53"
    unfolding fdiv_def using fl_eq_div [of "4 / 5" 53 7205759403792794] by simp
  have g: "fmul (7205759403792794 / 2 ^ 53) (8438412270024397 / 2 ^ 27) = 6750729816019518 / 2 ^ 27"
    unfolding fmul_def
    using fl_eq_div [of "(7205759403792794 / 2 ^ 53) * (8438412270024397 / 2 ^ 27)" 27 6750729816019518]
    by simp
  show "fmul (fdiv 4 5) Gamma = 6750729816019518 / 2 ^ 27"
    unfolding f Gamma_val g ..
qed

section \<open>Dimensions of the arguments of the solver call\<close>

lemma psi0_val:
  "psi0 = Inr \<lparr>dims = ([2, 101], [1, 1]), data = mat 202 1 (\<lambda>i j. if i = 50 then 1 else 0)\<rparr>"
proof -
  have "mat 202 1 (\<lambda>i j. (if i div 101 = 0 then 1 else 0) * (if i mod 101 = 50 then 1 else (0::complex)))
      = mat 202 1 (\<lambda>i j. if i = 50 then 1 else 0)"
  proof (rule mat_cong)
    fix i j :: nat
    have "i div 101 = 0 \<and> i mod 101 = 50 \<longleftrightarrow> i = 50"
      using div_mod_eq_iff [of i 101 50] by simp
    then show "(if i div 101 = 0 then 1 else 0) * (if i mod 101 = 50 then 1 else (0::complex))
        = (if i = 50 then 1 else 0)" by auto
  qed
  then show ?thesis
    by (simp add: psi0_def basis_def tensor_def tensor2_def nmax_def)
qed

lemma momentum_sq_val:
  "momentum_sq = Inr \<lparr>dims = ([2, 101], [2, 101]),
     data = mdiag 202 (\<lambda>i. of_int (int (i mod 101) - 50) * of_int (int (i mod 101) - 50))\<rparr>"
  unfolding momentum_sq_def momentum_val
  by (simp add: qpow_def qtype_of_def mpow2_mdiag)

text \<open>
  The check is not vacuous: the same Hamiltonian with the initial state built as
  \<open>basis(202, 50)\<close>, of the right shape but the flat dimensions \<open>[[202], [1]]\<close>, is rejected.
\<close>

lemma check_dims_rejects_flat_state:
  "\<exists>h p. H = Inr h \<and> basis 202 50 = Inr p \<and> shape p = (202, 1)
     \<and> check_dims h p [] [] = Inl DimensionError"
  unfolding H_val
  by (simp add: basis_def check_dims_def shape_def)

section \<open>The interaction loop of the Rydberg-array notebook\<close>

lemma foldE_append: "foldE f (xs @ ys) s = bindE (foldE f xs s) (foldE f ys)"
  by (induction xs arbitrary: s) (simp_all add: bindE_def split: sum.splits)

lemma foldE_skip:
  assumes "\<And>x s. x \<in> set xs \<Longrightarrow> f x s = Inr s"
  shows "foldE f xs s = Inr s"
  using assms by (induction xs arbitrary: s) simp_all

lemma foldE_map: "foldE f (map h xs) s = foldE (\<lambda>x. f (h x)) xs s"
  by (induction xs arbitrary: s) (simp_all split: sum.splits)

lemma interaction_step_far:
  "2 \<le> \<bar>int i - int j\<bar> \<Longrightarrow> interaction_step ns j i Hc = Inr Hc"
  by (simp add: interaction_step_def)

lemma inner_loop:
  "foldE (\<lambda>i Hc'. interaction_step ns j i Hc') [0..<j] Hc
     = (case j of 0 \<Rightarrow> Inr Hc | Suc m \<Rightarrow> interaction_step ns (Suc m) m Hc)"
proof (cases j)
  case 0
  then show ?thesis by simp
next
  case (Suc m)
  have "foldE (\<lambda>i Hc'. interaction_step ns (Suc m) i Hc') [0..<m] Hc = Inr Hc"
    by (rule foldE_skip) (simp add: interaction_step_def)
  then show ?thesis using Suc by (simp add: foldE_append split: sum.splits)
qed

lemma interaction_step_adjacent:
  "interaction_step ns (Suc i) i Hc =
     bindE (getitem ns i) (\<lambda>ni.
     bindE (getitem ns (i + 1)) (\<lambda>nj.
     bindE (qmul (smul (- C6 / a ^ 6) ni) nj) (\<lambda>t.
     qadd Hc t)))"
  by (simp add: interaction_step_def)

lemma add_interactions_nn: "add_interactions ns H0 = nn_interactions ns H0"
proof -
  have upt: "[0..<Natoms] = 0 # map Suc [0..<Natoms - 1]"
    by (simp add: Natoms_def upt_conv_Cons map_Suc_upt del: upt_Suc)
  show ?thesis
    unfolding add_interactions_def nn_interactions_def inner_loop upt
    by (simp add: foldE_map interaction_step_adjacent)
qed

lemma shape_mat [simp]: "0 < m \<Longrightarrow> shape \<lparr>dims = ds, data = mat m n f\<rparr> = (m, n)"
  by (simp add: shape_def)

lemma nrows_kron [simp]: "nrows (kron A B) = nrows A * nrows B"
  by (simp add: kron_def)

lemma ncols_kron [simp]: "0 < nrows A * nrows B \<Longrightarrow> ncols (kron A B) = ncols A * ncols B"
  by (simp add: kron_def)

lemma nrows_madd [simp]: "nrows (madd A B) = nrows A"
  by (simp add: madd_def)

lemma ncols_madd [simp]: "0 < nrows A \<Longrightarrow> ncols (madd A B) = ncols A"
  by (simp add: madd_def)

lemma nrows_mscale [simp]: "nrows (mscale c A) = nrows A"
  by (simp add: mscale_def)

lemma ncols_mscale [simp]: "0 < nrows A \<Longrightarrow> ncols (mscale c A) = ncols A"
  by (simp add: mscale_def)

lemma nrows_mmul [simp]: "nrows (mmul A B) = nrows A"
  by (simp add: mmul_def)

lemma ncols_mmul [simp]: "0 < nrows A \<Longrightarrow> ncols (mmul A B) = ncols B"
  by (simp add: mmul_def)

lemma site_operator_tensor2:
  assumes "site_operator m A" and "site_operator 1 B"
  shows "site_operator (m + 1) (tensor2 A B)"
  using assms
  by (simp add: site_operator_def tensor2_def shape_def replicate_append_same)

lemma site_operator_foldl:
  assumes "site_operator m A" and "\<And>q. q \<in> set qs \<Longrightarrow> site_operator 1 q"
  shows "site_operator (m + length qs) (foldl tensor2 A qs)"
  using assms
proof (induction qs arbitrary: m A)
  case Nil
  then show ?case by simp
next
  case (Cons q qs)
  have "site_operator (m + 1) (tensor2 A q)"
    using Cons.prems by (intro site_operator_tensor2) simp_all
  then have "site_operator (m + 1 + length qs) (foldl tensor2 (tensor2 A q) qs)"
    using Cons.prems by (intro Cons.IH) simp_all
  then show ?case by simp
qed

lemma site_operator_tensor:
  assumes "qs \<noteq> []" and "\<And>q. q \<in> set qs \<Longrightarrow> site_operator 1 q"
  shows "\<exists>t. tensor qs = Inr t \<and> site_operator (length qs) t"
proof (cases qs)
  case Nil
  with assms(1) show ?thesis by simp
next
  case (Cons q rest)
  have "site_operator (1 + length rest) (foldl tensor2 q rest)"
    using assms(2) Cons by (intro site_operator_foldl) simp_all
  then show ?thesis using Cons by (simp add: tensor_def)
qed

lemma dumoperator_init_eq: "dumoperator_init = replicate Natoms si"
proof -
  have "foldl (\<lambda>d j. d @ [x]) [] [0..<n] = replicate n x" for n :: nat and x :: qobj
    by (induction n) (simp_all add: replicate_append_same)
  then show ?thesis by (simp add: dumoperator_init_def)
qed

lemma number_op_val:
  "number_op = Inr \<lparr>dims = ([2], [2]), data = mdiag 2 (\<lambda>i. if i = 1 then 1 else 0)\<rparr>"
proof -
  have "mat 2 2 (\<lambda>i j. (- (if i = 0 then if j = 0 then 1 else 0 else if j = 0 then 0 else - 1)
            + (if i = j then 1 else 0)) / 2)
      = mdiag 2 (\<lambda>i. if i = 1 then 1 else (0::complex))"
    unfolding mdiag_def by (rule mat_cong) auto
  then show ?thesis
    by (simp add: number_op_def rsub_scalar_def qadd_def qneg_def sigmaz_def Qobj_def mat_2_2
        msize_def ncols_def nrows_def scalar_add_def qtype_of_def meye_def sdiv_def)
qed

lemma site_operator_si: "site_operator 1 si"
  by (simp add: site_operator_def si_def qeye_def meye_def)

lemma site_operator_sigmax: "site_operator 1 sigmax"
  by (simp add: site_operator_def sigmax_def shape_def nrows_def ncols_def)

lemma site_operator_number:
  "site_operator 1 \<lparr>dims = ([2], [2]), data = mdiag 2 (\<lambda>i. if i = 1 then 1 else 0)\<rparr>"
  by (simp add: site_operator_def mdiag_def)

lemma foldE_collect:
  assumes "\<And>x acc. x \<in> set xs \<Longrightarrow> \<exists>u v. f x acc = Inr (fst acc @ [u], snd acc @ [v]) \<and> P u \<and> Q v"
    and "list_all P (fst acc)" and "list_all Q (snd acc)"
  shows "\<exists>us vs. foldE f xs acc = Inr (us, vs) \<and> length us = length (fst acc) + length xs
           \<and> length vs = length (snd acc) + length xs \<and> list_all P us \<and> list_all Q vs"
  using assms
proof (induction xs arbitrary: acc)
  case Nil
  then show ?case by (cases acc) simp
next
  case (Cons x xs)
  from Cons.prems(1) [of x acc] obtain u v
    where step: "f x acc = Inr (fst acc @ [u], snd acc @ [v])" and u: "P u" and v: "Q v"
    by auto
  have "\<exists>us vs. foldE f xs (fst acc @ [u], snd acc @ [v]) = Inr (us, vs)
      \<and> length us = length (fst (fst acc @ [u], snd acc @ [v])) + length xs
      \<and> length vs = length (snd (fst acc @ [u], snd acc @ [v])) + length xs
      \<and> list_all P us \<and> list_all Q vs"
    using Cons.prems u v by (intro Cons.IH) simp_all
  then show ?case using step by auto
qed

lemma build_ops_step_ok:
  assumes "i < Natoms"
  shows "\<exists>u v. build_ops_step i acc = Inr (fst acc @ [u], snd acc @ [v])
           \<and> site_operator Natoms u \<and> site_operator Natoms v"
proof -
  let ?nop = "\<lparr>dims = ([2], [2]), data = mdiag 2 (\<lambda>i. if i = 1 then 1 else 0)\<rparr>"
  let ?d1 = "(replicate Natoms si)[i := sigmax]"
  let ?d2 = "?d1[i := ?nop]"
  have len: "length ?d1 = Natoms" "length ?d2 = Natoms" by simp_all
  have ne: "?d1 \<noteq> []" "?d2 \<noteq> []" using len by (auto simp: Natoms_def)
  have d1: "site_operator 1 q" if "q \<in> set ?d1" for q
  proof -
    from that set_update_subset_insert [of "replicate Natoms si" i sigmax]
    have "q = sigmax \<or> q \<in> set (replicate Natoms si)" by blast
    then have "q = sigmax \<or> q = si" by auto
    then show ?thesis using site_operator_si site_operator_sigmax by blast
  qed
  have d2: "site_operator 1 q" if "q \<in> set ?d2" for q
  proof -
    from that set_update_subset_insert [of ?d1 i ?nop]
    have "q = ?nop \<or> q \<in> set ?d1" by blast
    then show ?thesis using site_operator_number d1 by blast
  qed
  obtain u where u: "tensor ?d1 = Inr u" "site_operator Natoms u"
    using site_operator_tensor [OF ne(1) d1] len by auto
  obtain v where v: "tensor ?d2 = Inr v" "site_operator Natoms v"
    using site_operator_tensor [OF ne(2) d2] len by auto
  have "build_ops_step i acc = Inr (fst acc @ [u], snd acc @ [v])"
    using assms u(1) v(1)
    by (simp add: build_ops_step_def dumoperator_init_eq setitem_def number_op_val)
  then show ?thesis using u(2) v(2) by blast
qed

lemma fullnumberop_ok:
  "\<exists>ns. fullnumberop = Inr ns \<and> length ns = Natoms \<and> list_all (site_operator Natoms) ns"
proof -
  have "\<exists>us vs. build_ops = Inr (us, vs) \<and> length us = length (fst ([]::qobj list, []::qobj list)) + length [0..<Natoms]
           \<and> length vs = length (snd ([]::qobj list, []::qobj list)) + length [0..<Natoms]
           \<and> list_all (site_operator Natoms) us \<and> list_all (site_operator Natoms) vs"
    unfolding build_ops_def
    by (rule foldE_collect) (simp_all add: build_ops_step_ok)
  then obtain us vs where b: "build_ops = Inr (us, vs)" and vs: "length vs = Natoms"
      "list_all (site_operator Natoms) vs" by auto
  have "fullnumberop = Inr vs" unfolding fullnumberop_def b by simp
  with vs show ?thesis by blast
qed

lemma foldE_invariant:
  assumes "P s" and "\<And>x s. x \<in> set xs \<Longrightarrow> P s \<Longrightarrow> \<exists>s'. f x s = Inr s' \<and> P s'"
  shows "\<exists>s'. foldE f xs s = Inr s' \<and> P s'"
  using assms
proof (induction xs arbitrary: s)
  case Nil
  then show ?case by simp
next
  case (Cons x xs)
  from Cons.prems(2) [of x s] Cons.prems(1) obtain s1 where s1: "f x s = Inr s1" "P s1" by auto
  have "\<exists>s'. foldE f xs s1 = Inr s' \<and> P s'"
    using s1(2) Cons.prems(2) by (intro Cons.IH) simp_all
  then show ?case using s1(1) by simp
qed

lemma unit_mask_twos: "unit_mask (replicate n 2) (replicate n 2) = replicate n False"
  by (induction n) simp_all

lemma keep_unmasked_twos: "0 < n \<Longrightarrow> keep_unmasked (replicate n 2) (replicate n False) = replicate n 2"
proof -
  have "map fst (filter (\<lambda>(d, m). \<not> m) (zip (replicate n (2::nat)) (replicate n False))) = replicate n 2"
    by (induction n) simp_all
  then show "0 < n \<Longrightarrow> keep_unmasked (replicate n 2) (replicate n False) = replicate n 2"
    by (simp add: keep_unmasked_def)
qed

lemma tidy_dims_twos: "0 < n \<Longrightarrow> tidy_dims (replicate n 2, replicate n 2) = (replicate n 2, replicate n 2)"
  by (simp add: tidy_dims_def unit_mask_twos keep_unmasked_twos)

lemma site_operator_term:
  assumes n: "0 < n" and A: "site_operator n A" and B: "site_operator n B"
  shows "\<exists>t. qmul (smul c A) B = Inr t \<and> site_operator n t"
  using assms
  by (simp add: site_operator_def qmul_def smul_def shape_def tidy_dims_twos)

lemma site_operator_qadd:
  assumes n: "0 < n" and A: "site_operator n A" and B: "site_operator n B"
  shows "\<exists>t. qadd A B = Inr t \<and> site_operator n t"
proof -
  have "(2::nat) ^ n * 2 ^ n \<noteq> 1" using n by simp
  then show ?thesis using assms
    by (simp add: site_operator_def qadd_def shape_def msize_def)
qed

lemma nn_interactions_ok:
  assumes len: "length ns = Natoms" and ns: "list_all (site_operator Natoms) ns"
    and H0: "site_operator Natoms H0"
  shows "\<exists>h. nn_interactions ns H0 = Inr h \<and> site_operator Natoms h"
  unfolding nn_interactions_def
proof (rule foldE_invariant [where P = "site_operator Natoms", OF H0])
  fix i Hc assume i: "i \<in> set [0..<Natoms - 1]" and Hc: "site_operator Natoms Hc"
  have pos: "0 < Natoms" by (simp add: Natoms_def)
  from i len have ii: "i < length ns" "i + 1 < length ns" by auto
  with ns have si: "site_operator Natoms (ns ! i)" "site_operator Natoms (ns ! (i + 1))"
    by (simp_all add: list_all_length)
  obtain t where t: "qmul (smul (- C6 / a ^ 6) (ns ! i)) (ns ! (i + 1)) = Inr t" "site_operator Natoms t"
    using site_operator_term [OF pos si] by blast
  obtain h where h: "qadd Hc t = Inr h" "site_operator Natoms h"
    using site_operator_qadd [OF pos Hc t(2)] by blast
  show "\<exists>s'. bindE (getitem ns i) (\<lambda>ni. bindE (getitem ns (i + 1))
          (\<lambda>nj. bindE (qmul (smul (- C6 / a ^ 6) ni) nj) (qadd Hc))) = Inr s' \<and> site_operator Natoms s'"
    using ii t h by (simp add: getitem_def)
qed


section \<open>The claims\<close>

lemma charge_real_diag:
  "data (charge nmax) = mdiag (2 * nmax + 1) (\<lambda>i. of_real (of_int (int i - int nmax)))"
  by (simp add: charge_def)

text \<open>
  C7. The Hamiltonian that the Doppler-cooling notebook builds and hands to the solver is
  Hermitian: it is defined (no operation raises) and equals its adjoint. The parts named
  by the claim: \<open>charge(nmax)\<close> is a real diagonal matrix and so is the kinetic term, with
  the entries \<open>hbarOvermRb * (k * p)\<^sup>2 / 2\<close> for the momentum \<open>p\<close> of the index; \<open>coupling\<close> is
  real and symmetric; \<open>Pe\<close> is a projector, self-adjoint and idempotent. The coefficients
  are real numbers by their type.
\<close>

theorem C7_hamiltonian_hermitian:
  "(\<exists>h. H = Inr h \<and> dag h = h)
   \<and> data (charge nmax) = mdiag (2 * nmax + 1) (\<lambda>i. of_real (of_int (int i - int nmax)))
   \<and> kinetic = Inr \<lparr>dims = ([2, 101], [2, 101]),
         data = mdiag 202 (\<lambda>i. of_real (hbarOvermRb * (k * of_int (int (i mod 101) - 50)) ^ 2 / 2))\<rparr>
   \<and> (\<exists>c. coupling = Inr c \<and> mtranspose (data c) = data c \<and> mconj (data c) = data c)
   \<and> (\<exists>p. Pe = Inr p \<and> dag p = p \<and> qmul p p = Inr p)"
  using H_herm charge_real_diag kinetic_val coupling_sym Pe_projector by (intro conjI)

text \<open>
  C8, as amended. The sum \<open>C0\<^sup>\<dagger>C0 + Cmk\<^sup>\<dagger>Cmk + Cpk\<^sup>\<dagger>Cpk\<close> of the three jump operators that
  the notebook builds is diagonal and vanishes on the ground state. On the excited state
  (index \<open>i div 101 = 1\<close>) each channel contributes the square of its coefficient: \<open>C0\<close> at
  every momentum index, \<open>Cmk\<close> at every index but the lowest and \<open>Cpk\<close> at every index but
  the highest, because each shift matrix lacks one entry at the boundary. The entry is
  therefore \<open>c0\<^sup>2 + ck\<^sup>2 + ck\<^sup>2\<close> at an interior index and \<open>c0\<^sup>2 + ck\<^sup>2\<close> at the two
  extremal ones, with \<open>c0 = np.sqrt(3/5 * Gamma)\<close> and \<open>ck = np.sqrt(1/5 * Gamma)\<close> the
  doubles that the notebook computes. These two values are \<open>Gamma\<close> and \<open>4/5 * Gamma\<close> up to
  rounding only. In exact arithmetic each lies less than \<open>2^(-27)\<close>, one unit in the last
  place of \<open>Gamma\<close>, from its target; evaluated in doubles, every product and sum rounded
  from left to right, each is its target less \<open>2^(-27)\<close>. \<open>Gamma * Pe\<close> has the entry
  \<open>Gamma\<close> at every excited index.
\<close>

theorem C8_scattering_sum_structure:
  "CdagC_sum = Inr \<lparr>dims = ([2, 101], [2, 101]),
      data = mdiag 202 (\<lambda>i. if i div 101 = 1
               then (if i mod 101 = 0 \<or> i mod 101 = 100
                     then of_real (c0_coef\<^sup>2 + ck_coef\<^sup>2)
                     else of_real (c0_coef\<^sup>2 + ck_coef\<^sup>2 + ck_coef\<^sup>2))
               else 0)\<rparr>
   \<and> bindE C0 CdagC = Inr \<lparr>dims = ([2, 101], [2, 101]),
      data = mdiag 202 (\<lambda>i. if i div 101 = 1 then of_real (c0_coef\<^sup>2) * 1 else 0)\<rparr>
   \<and> bindE Cmk CdagC = Inr \<lparr>dims = ([2, 101], [2, 101]),
      data = mdiag 202 (\<lambda>i. if i div 101 = 1
               then of_real (ck_coef\<^sup>2) * (if 1 \<le> i mod 101 then 1 else 0) else 0)\<rparr>
   \<and> bindE Cpk CdagC = Inr \<lparr>dims = ([2, 101], [2, 101]),
      data = mdiag 202 (\<lambda>i. if i div 101 = 1
               then of_real (ck_coef\<^sup>2) * (if i mod 101 + 1 < 101 then 1 else 0) else 0)\<rparr>
   \<and> \<bar>c0_coef\<^sup>2 + ck_coef\<^sup>2 + ck_coef\<^sup>2 - Gamma\<bar> < 1 / 2 ^ 27
   \<and> \<bar>c0_coef\<^sup>2 + ck_coef\<^sup>2 - 4 / 5 * Gamma\<bar> < 1 / 2 ^ 27
   \<and> fadd (fadd (fmul c0_coef c0_coef) (fmul ck_coef ck_coef)) (fmul ck_coef ck_coef)
       = Gamma - 1 / 2 ^ 27
   \<and> fadd (fmul c0_coef c0_coef) (fmul ck_coef ck_coef) = fmul (fdiv 4 5) Gamma - 1 / 2 ^ 27
   \<and> Gamma_Pe = Inr \<lparr>dims = ([2, 101], [2, 101]),
      data = mdiag 202 (\<lambda>i. if i div 101 = 1 then of_real Gamma else 0)\<rparr>"
proof -
  have d1: "fadd (fadd (fmul c0_coef c0_coef) (fmul ck_coef ck_coef)) (fmul ck_coef ck_coef)
      = Gamma - 1 / 2 ^ 27"
    unfolding interior_double Gamma_val by simp
  have d0: "fadd (fmul c0_coef c0_coef) (fmul ck_coef ck_coef) = fmul (fdiv 4 5) Gamma - 1 / 2 ^ 27"
    unfolding edge_double by simp
  from CdagC_sum_val CdagC_C0 CdagC_Cmk CdagC_Cpk interior_close edge_close d1 d0 Gamma_Pe_val
  show ?thesis by (intro conjI)
qed

text \<open>
  C8, as stated, fails on the operators that the notebook builds. At the index \<open>102\<close>
  (excited state, momentum index \<open>1\<close>, interior) the entry of the sum is
  \<open>c0\<^sup>2 + ck\<^sup>2 + ck\<^sup>2\<close>, the entry of \<open>Gamma * Pe\<close> is \<open>Gamma\<close>, and the two differ, in exact
  arithmetic and also when the sum is evaluated in doubles, where it is \<open>Gamma\<close> less one
  unit in the last place. At the index \<open>101\<close> (excited state, lowest momentum) the entry is
  \<open>c0\<^sup>2 + ck\<^sup>2\<close>, which is not \<open>4/5 * Gamma\<close> in either arithmetic.
\<close>

theorem C8_scattering_sum_not_Gamma:
  "entry CdagC_sum 102 102 = Inr (of_real (c0_coef\<^sup>2 + ck_coef\<^sup>2 + ck_coef\<^sup>2))
   \<and> entry Gamma_Pe 102 102 = Inr (of_real Gamma)
   \<and> entry CdagC_sum 102 102 \<noteq> entry Gamma_Pe 102 102
   \<and> c0_coef\<^sup>2 + ck_coef\<^sup>2 + ck_coef\<^sup>2 \<noteq> Gamma
   \<and> fadd (fadd (fmul c0_coef c0_coef) (fmul ck_coef ck_coef)) (fmul ck_coef ck_coef) \<noteq> Gamma
   \<and> entry CdagC_sum 101 101 = Inr (of_real (c0_coef\<^sup>2 + ck_coef\<^sup>2))
   \<and> c0_coef\<^sup>2 + ck_coef\<^sup>2 \<noteq> 4 / 5 * Gamma
   \<and> fadd (fmul c0_coef c0_coef) (fmul ck_coef ck_coef) \<noteq> fmul (fdiv 4 5) Gamma"
proof -
  have s1: "entry CdagC_sum 102 102 = Inr (of_real (c0_coef\<^sup>2 + ck_coef\<^sup>2 + ck_coef\<^sup>2))"
    unfolding CdagC_sum_val by (subst entry_mdiag) simp_all
  have s0: "entry CdagC_sum 101 101 = Inr (of_real (c0_coef\<^sup>2 + ck_coef\<^sup>2))"
    unfolding CdagC_sum_val by (subst entry_mdiag) simp_all
  have g1: "entry Gamma_Pe 102 102 = Inr (of_real Gamma)"
    unfolding Gamma_Pe_val by (subst entry_mdiag) simp_all
  have ne: "entry CdagC_sum 102 102 \<noteq> entry Gamma_Pe 102 102"
    unfolding s1 g1 using interior_ne by (simp only: sum.inject of_real_eq_iff not_False_eq_True)
  have d1: "fadd (fadd (fmul c0_coef c0_coef) (fmul ck_coef ck_coef)) (fmul ck_coef ck_coef) \<noteq> Gamma"
    unfolding interior_double Gamma_val by simp
  have d0: "fadd (fmul c0_coef c0_coef) (fmul ck_coef ck_coef) \<noteq> fmul (fdiv 4 5) Gamma"
    unfolding edge_double by simp
  from s1 g1 ne interior_ne d1 s0 edge_ne d0 show ?thesis by (intro conjI)
qed

text \<open>
  C9. In the \<open>mcsolve\<close> call of the Doppler-cooling notebook the Hamiltonian, the observable
  \<open>momentum**2\<close> and the three jump operators all have the dimensions
  \<open>[[2, 2*nmax+1], [2, 2*nmax+1]]\<close> and the shape \<open>202 \<times> 202\<close>, and the initial state has
  the dimensions \<open>[[2, 2*nmax+1], [1, 1]]\<close> and the shape \<open>202 \<times> 1\<close>; the dimension check
  of the integrator therefore passes and its error branch is not taken.
\<close>

theorem C9_mcsolve_arguments_dims:
  "\<exists>h p ob cs. H = Inr h \<and> psi0 = Inr p \<and> momentum_sq = Inr ob \<and> Cs = Inr cs
     \<and> dims h = ([2, 2 * nmax + 1], [2, 2 * nmax + 1]) \<and> shape h = (202, 202)
     \<and> dims ob = dims h \<and> shape ob = shape h
     \<and> length cs = 3 \<and> list_all (\<lambda>C. dims C = dims h \<and> shape C = shape h) cs
     \<and> dims p = ([2, 2 * nmax + 1], [1, 1]) \<and> shape p = (202, 1)
     \<and> check_dims h p [ob] cs = Inr ()"
  unfolding H_val psi0_val momentum_sq_val Cs_def C0_val Cmk_val Cpk_val bindE_Inr
  by (simp add: check_dims_def shape_def nmax_def)

text \<open>
  C10. In the Rydberg-array notebook the double loop adds the interaction term only for
  adjacent sites. For every list of number operators and every starting Hamiltonian the
  loop computes the nearest-neighbour sum, one term \<open>-C6/a\<^sup>6 * n\<^sub>i * n\<^sub>i\<^sub>+\<^sub>1\<close> per adjacent
  pair, with a coefficient that is not zero; for a pair of sites at distance two or more
  the loop body leaves \<open>H\<close> unchanged. On the number operators that the notebook builds, and on any starting operator over the
  nine sites, the loop raises nothing and returns an operator over the nine sites.
\<close>

theorem C10_interaction_nearest_neighbour:
  "(\<forall>ns H0. add_interactions ns H0 = nn_interactions ns H0)
   \<and> 0 < - C6 / a ^ 6
   \<and> (\<forall>ns i j Hc. 2 \<le> \<bar>int i - int j\<bar> \<longrightarrow> interaction_step ns j i Hc = Inr Hc)
   \<and> (\<exists>ns. fullnumberop = Inr ns \<and> length ns = Natoms
         \<and> (\<forall>H0. site_operator Natoms H0 \<longrightarrow>
               (\<exists>h. add_interactions ns H0 = Inr h \<and> site_operator Natoms h)))"
proof (intro conjI allI impI)
  fix ns H0 show "add_interactions ns H0 = nn_interactions ns H0"
    by (rule add_interactions_nn)
next
  show "0 < - C6 / a ^ 6"
    by (simp add: C6_def a_def)
next
  fix ns i j Hc assume "2 \<le> \<bar>int i - int j\<bar>"
  then show "interaction_step ns j i Hc = Inr Hc" by (rule interaction_step_far)
next
  obtain ns where ns: "fullnumberop = Inr ns" "length ns = Natoms" "list_all (site_operator Natoms) ns"
    using fullnumberop_ok by blast
  have "\<exists>h. add_interactions ns H0 = Inr h \<and> site_operator Natoms h" if "site_operator Natoms H0" for H0
    unfolding add_interactions_nn using ns(2,3) that by (rule nn_interactions_ok)
  with ns(1,2) show "\<exists>ns. fullnumberop = Inr ns \<and> length ns = Natoms
         \<and> (\<forall>H0. site_operator Natoms H0 \<longrightarrow>
               (\<exists>h. add_interactions ns H0 = Inr h \<and> site_operator Natoms h))" by blast
qed

theorem C10_interaction_nearest_neighbour_witness:
  "(2::int) \<le> \<bar>int 0 - int 2\<bar>
   \<and> interaction_step [] 2 0 (qeye 2) = Inr (qeye 2)
   \<and> add_interactions [sigmax, sigmaz] (qeye 2) = nn_interactions [sigmax, sigmaz] (qeye 2)
   \<and> site_operator Natoms \<lparr>dims = (replicate 9 2, replicate 9 2), data = meye 512\<rparr>
   \<and> (\<exists>ns h. fullnumberop = Inr ns
         \<and> add_interactions ns \<lparr>dims = (replicate 9 2, replicate 9 2), data = meye 512\<rparr> = Inr h
         \<and> site_operator Natoms h)"
proof -
  let ?H0 = "\<lparr>dims = (replicate 9 2, replicate 9 2), data = meye 512\<rparr>"
  have far: "(2::int) \<le> \<bar>int 0 - int 2\<bar>" by simp
  have H0: "site_operator Natoms ?H0"
    by (simp add: site_operator_def Natoms_def meye_def)
  from C10_interaction_nearest_neighbour
  have 1: "add_interactions [sigmax, sigmaz] (qeye 2) = nn_interactions [sigmax, sigmaz] (qeye 2)"
    and 2: "interaction_step [] 2 0 (qeye 2) = Inr (qeye 2)"
    and 3: "\<exists>ns h. fullnumberop = Inr ns \<and> add_interactions ns ?H0 = Inr h \<and> site_operator Natoms h"
    using far H0 by blast+
  with far H0 show ?thesis by blast
qed

end
